theory Spec2Isabelle
  imports Main
begin

section \<open>The B-tree of bTree.h / bTree.cpp\<close>

text \<open>
  A node of the source is a struct with a key array of capacity \<open>2t - 1\<close>, a child
  array of capacity \<open>2t\<close>, the number \<open>size\<close> of keys and a leaf flag. The model
  keeps the live part of the arrays: \<open>key x\<close> is \<open>key[0..size-1]\<close>, so that the
  field \<open>size\<close> is the length of that list, and \<open>child x\<close> is \<open>child[0..size]\<close>.
  The child array of a leaf holds pointers that are never followed; a leaf of the model
  has the empty child list, and a write into it (\<open>list_update\<close> on the empty list)
  leaves it empty. A pointer to a node is modelled by the node itself, which is what
  the program does as long as every node has one parent; the section on the store
  below follows the pointers where that matters.
\<close>

datatype 'a BNode = BNode (key: "'a list") (child: "'a BNode list") (leaf: bool)

definition size_of :: "'a BNode \<Rightarrow> nat" where
  "size_of x = length (key x)"

definition set_child :: "'a BNode \<Rightarrow> nat \<Rightarrow> 'a BNode \<Rightarrow> 'a BNode" where
  "set_child x i c = BNode (key x) ((child x)[i := c]) (leaf x)"

definition set_key :: "'a BNode \<Rightarrow> nat \<Rightarrow> 'a \<Rightarrow> 'a BNode" where
  "set_key x i k = BNode ((key x)[i := k]) (child x) (leaf x)"

text \<open>The exception values and the result codes of the fix-up helpers.\<close>

type_synonym BTREE_EXCEPTION = char

definition SEARCH_KEY_NOT_FOUND :: BTREE_EXCEPTION where
  "SEARCH_KEY_NOT_FOUND = CHR ''s''"

definition REMOVE_KEY_NOT_FOUND :: BTREE_EXCEPTION where
  "REMOVE_KEY_NOT_FOUND = CHR ''r''"

definition NEW_ROOT :: nat where "NEW_ROOT = 2"
definition MODIFIED_NOT_ROOT :: nat where "MODIFIED_NOT_ROOT = 1"
definition NOT_MODIFIED :: nat where "NOT_MODIFIED = 0"

text \<open>The class: the root, the comparison function and the minimum degree.\<close>

record 'a BTree =
  root :: "'a BNode"
  lessThan :: "'a \<Rightarrow> 'a \<Rightarrow> bool"
  minDegree :: nat

text \<open>The constructor: one empty leaf.\<close>

definition BTree_new :: "nat \<Rightarrow> ('a \<Rightarrow> 'a \<Rightarrow> bool) \<Rightarrow> 'a BTree" where
  "BTree_new t compare = \<lparr>root = BNode [] [] True, lessThan = compare, minDegree = t\<rparr>"

subsection \<open>Node helpers\<close>

text \<open>\<open>findIndex\<close>: the first index whose key is not less than \<open>k\<close>.\<close>

primrec findIndex_keys :: "('a \<Rightarrow> 'a \<Rightarrow> bool) \<Rightarrow> 'a list \<Rightarrow> 'a \<Rightarrow> nat" where
  "findIndex_keys lt [] k = 0"
| "findIndex_keys lt (x # xs) k = (if lt x k then Suc (findIndex_keys lt xs k) else 0)"

definition findIndex :: "('a \<Rightarrow> 'a \<Rightarrow> bool) \<Rightarrow> 'a BNode \<Rightarrow> 'a \<Rightarrow> nat" where
  "findIndex lt x k = findIndex_keys lt (key x) k"

text \<open>
  The loop of \<open>nodeInsert\<close>, started at \<open>index\<close>: step left while \<open>k\<close> is less
  than the key before \<open>index\<close>.
\<close>

primrec nodeInsert_index :: "('a \<Rightarrow> 'a \<Rightarrow> bool) \<Rightarrow> 'a list \<Rightarrow> 'a \<Rightarrow> nat \<Rightarrow> nat" where
  "nodeInsert_index lt ks k 0 = 0"
| "nodeInsert_index lt ks k (Suc i) =
     (if lt k (ks ! i) then nodeInsert_index lt ks k i else Suc i)"

text \<open>
  \<open>nodeInsert\<close> shifts the keys from \<open>index\<close> on and the children from
  \<open>index + 1\<close> on one slot to the right, copies \<open>child[index]\<close> into
  \<open>child[index + 1]\<close>, and stores \<open>k\<close>. It returns the index.
\<close>

definition nodeInsert :: "('a \<Rightarrow> 'a \<Rightarrow> bool) \<Rightarrow> 'a BNode \<Rightarrow> 'a \<Rightarrow> 'a BNode \<times> nat" where
  "nodeInsert lt x k =
     (let index = nodeInsert_index lt (key x) k (size_of x)
      in (BNode (take index (key x) @ k # drop index (key x))
                (take (Suc index) (child x) @ drop index (child x))
                (leaf x),
          index))"

text \<open>
  \<open>nodeDelete\<close> removes \<open>key[index]\<close> and \<open>child[index + 1]\<close> and returns the
  deleted key.
\<close>

definition nodeDelete :: "'a BNode \<Rightarrow> nat \<Rightarrow> 'a \<times> 'a BNode" where
  "nodeDelete x index =
     (key x ! index,
      BNode (take index (key x) @ drop (Suc index) (key x))
            (take (Suc index) (child x) @ drop (Suc (Suc index)) (child x))
            (leaf x))"

text \<open>
  \<open>splitChild\<close>: the new node takes the keys from index \<open>t\<close> on (and, of an internal
  node, the children from index \<open>t\<close> on), the split node keeps its first \<open>t - 1\<close>
  keys, the key at index \<open>t - 1\<close> goes into the parent through \<open>nodeInsert\<close>, and
  the new node is stored at \<open>child[i + 1]\<close> of the parent.
\<close>

definition splitChild :: "nat \<Rightarrow> ('a \<Rightarrow> 'a \<Rightarrow> bool) \<Rightarrow> 'a BNode \<Rightarrow> nat \<Rightarrow> 'a BNode" where
  "splitChild t lt x i =
     (let toSplit = child x ! i;
          newNode = BNode (take (t - 1) (drop t (key toSplit)))
                          (if leaf toSplit then [] else take t (drop t (child toSplit)))
                          (leaf toSplit);
          toSplit' = BNode (take (t - 1) (key toSplit)) (take t (child toSplit)) (leaf toSplit);
          x' = fst (nodeInsert lt (set_child x i toSplit') (key toSplit ! (t - 1)))
      in set_child x' (Suc i) newNode)"

subsection \<open>Insertion\<close>

text \<open>
  The index loop of \<open>insert\<close> starts at \<open>size - 1\<close>, steps left while \<open>k\<close> is less
  than the key at the index, and adds one: the scan of \<open>nodeInsert\<close> from \<open>size\<close>.
\<close>

definition insert_index :: "('a \<Rightarrow> 'a \<Rightarrow> bool) \<Rightarrow> 'a BNode \<Rightarrow> 'a \<Rightarrow> nat" where
  "insert_index lt cur k = nodeInsert_index lt (key cur) k (size_of cur)"

text \<open>
  One round of the descent: the child index for \<open>k\<close>, the split of a full child, and
  the index after the split. The result is the current node and the child to go to.
\<close>

definition insert_step :: "nat \<Rightarrow> ('a \<Rightarrow> 'a \<Rightarrow> bool) \<Rightarrow> 'a BNode \<Rightarrow> 'a \<Rightarrow> 'a BNode \<times> nat" where
  "insert_step t lt cur k =
     (let index = insert_index lt cur k
      in if size_of (child cur ! index) = 2 * t - 1
         then (let cur' = splitChild t lt cur index
               in (cur', if lt (key cur' ! index) k then Suc index else index))
         else (cur, index))"

partial_function (option) insert_loop ::
  "nat \<Rightarrow> ('a \<Rightarrow> 'a \<Rightarrow> bool) \<Rightarrow> 'a BNode \<Rightarrow> 'a \<Rightarrow> 'a BNode option" where
  "insert_loop t lt cur k =
     (if leaf cur then Some (fst (nodeInsert lt cur k))
      else (let (cur', index) = insert_step t lt cur k
            in Option.bind (insert_loop t lt (child cur' ! index) k)
                 (\<lambda>c. Some (set_child cur' index c))))"

declare insert_loop.simps [code]

definition insert_bt :: "'a BTree \<Rightarrow> 'a \<Rightarrow> 'a BTree option" where
  "insert_bt T k =
     (let t = minDegree T;
          r = (if size_of (root T) = 2 * t - 1
               then splitChild t (lessThan T) (BNode [] [root T] False) 0
               else root T)
      in map_option (\<lambda>r'. T\<lparr>root := r'\<rparr>) (insert_loop t (lessThan T) r k))"

subsection \<open>Search\<close>

partial_function (option) search_loop ::
  "('a \<Rightarrow> 'a \<Rightarrow> bool) \<Rightarrow> 'a BNode \<Rightarrow> 'a \<Rightarrow> ('a BNode option \<times> nat) option" where
  "search_loop lt x k =
     (let i = findIndex lt x k
      in if i < size_of x \<and> \<not> (lt k (key x ! i) \<or> lt (key x ! i) k) then Some (Some x, i)
         else if leaf x then Some (None, 0)
         else search_loop lt (child x ! i) k)"

declare search_loop.simps [code]

definition search :: "'a BTree \<Rightarrow> 'a \<Rightarrow> ('a BNode option \<times> nat) option" where
  "search T k = search_loop (lessThan T) (root T) k"

definition searchKey :: "'a BTree \<Rightarrow> 'a \<Rightarrow> (BTREE_EXCEPTION + 'a) option" where
  "searchKey T k =
     Option.bind (search T k)
       (\<lambda>node. case fst node of
                  None \<Rightarrow> Some (Inl SEARCH_KEY_NOT_FOUND)
                | Some x \<Rightarrow> Some (Inr (key x ! snd node)))"

subsection \<open>Deletion\<close>

text \<open>
  \<open>mergeChildren\<close> moves \<open>key[i]\<close> of the parent and everything of the right child
  into the left child. The result is the code, the parent and the merged child; with
  the code \<open>NEW_ROOT\<close> the source has made the merged child the root.
\<close>

definition mergeChildren :: "'a BNode \<Rightarrow> nat \<Rightarrow> nat \<times> 'a BNode \<times> 'a BNode" where
  "mergeChildren parent i =
     (let leftKid = child parent ! i;
          rightKid = child parent ! Suc i;
          (sep, parent1) = nodeDelete parent i;
          leftKid' = BNode (key leftKid @ sep # key rightKid)
                           (child leftKid @ child rightKid) (leaf leftKid);
          parent' = set_child parent1 i leftKid'
      in (if size_of parent' = 0 then NEW_ROOT else MODIFIED_NOT_ROOT, parent', leftKid'))"

text \<open>
  The loop of \<open>fixChildSize\<close> that moves the child pointers \<open>0..i-1\<close> one slot to the
  right after \<open>nodeInsert\<close> has put the key at index \<open>i\<close>.
\<close>

primrec shift_children :: "nat \<Rightarrow> 'a BNode list \<Rightarrow> 'a BNode list" where
  "shift_children 0 cs = cs"
| "shift_children (Suc i) cs = shift_children i (cs[Suc i := cs ! i])"

text \<open>
  \<open>fixChildSize\<close> returns the code and the node the caller goes on with: the parent,
  or the new root when the code is \<open>NEW_ROOT\<close>.
\<close>

definition fixChildSize :: "nat \<Rightarrow> ('a \<Rightarrow> 'a \<Rightarrow> bool) \<Rightarrow> 'a BNode \<Rightarrow> nat \<Rightarrow> nat \<times> 'a BNode" where
  "fixChildSize t lt parent index =
     (let kid = child parent ! index
      in if size_of kid < t then
           (if index \<noteq> 0 \<and> size_of (child parent ! (index - 1)) \<ge> t then
              (let leftKid = child parent ! (index - 1);
                   (kid1, i) = nodeInsert lt kid (key parent ! (index - 1));
                   kid2 = BNode (key kid1)
                            ((shift_children i (child kid1))[0 := child leftKid ! size_of leftKid])
                            (leaf kid1);
                   (up, leftKid') = nodeDelete leftKid (size_of leftKid - 1)
               in (MODIFIED_NOT_ROOT,
                   BNode ((key parent)[index - 1 := up])
                         ((child parent)[index - 1 := leftKid', index := kid2])
                         (leaf parent)))
            else if index \<noteq> size_of parent \<and> size_of (child parent ! Suc index) \<ge> t then
              (let rightKid = child parent ! Suc index;
                   kid1 = fst (nodeInsert lt kid (key parent ! index));
                   kid2 = set_child kid1 (size_of kid1) (child rightKid ! 0);
                   rightKid1 = set_child rightKid 0 (child rightKid ! 1);
                   (up, rightKid') = nodeDelete rightKid1 0
               in (MODIFIED_NOT_ROOT,
                   BNode ((key parent)[index := up])
                         ((child parent)[index := kid2, Suc index := rightKid'])
                         (leaf parent)))
            else if index \<noteq> 0 then
              (let (code, parent', leftKid') = mergeChildren parent (index - 1)
               in (code, if code = NEW_ROOT then leftKid' else parent'))
            else
              (let (code, parent', leftKid') = mergeChildren parent index
               in (code, if code = NEW_ROOT then leftKid' else parent')))
         else (NOT_MODIFIED, parent))"

text \<open>
  The two inner loops of \<open>remove\<close>: go down to the last (first) leaf below a child,
  fixing the size of every child on the way, and delete the last (first) key there.
  The result is the deleted key and the child as it is afterwards. The code that
  \<open>fixChildSize\<close> returns is not looked at, as in the source.
\<close>

partial_function (option) remove_predecessor ::
  "nat \<Rightarrow> ('a \<Rightarrow> 'a \<Rightarrow> bool) \<Rightarrow> 'a BNode \<Rightarrow> ('a \<times> 'a BNode) option" where
  "remove_predecessor t lt leftKid =
     (if leaf leftKid then Some (nodeDelete leftKid (size_of leftKid - 1))
      else (let x = snd (fixChildSize t lt leftKid (size_of leftKid))
            in Option.bind (remove_predecessor t lt (child x ! size_of x))
                 (\<lambda>(k, c). Some (k, set_child x (size_of x) c))))"

declare remove_predecessor.simps [code]

partial_function (option) remove_successor ::
  "nat \<Rightarrow> ('a \<Rightarrow> 'a \<Rightarrow> bool) \<Rightarrow> 'a BNode \<Rightarrow> ('a \<times> 'a BNode) option" where
  "remove_successor t lt rightKid =
     (if leaf rightKid then Some (nodeDelete rightKid 0)
      else (let x = snd (fixChildSize t lt rightKid 0)
            in Option.bind (remove_successor t lt (child x ! 0))
                 (\<lambda>(k, c). Some (k, set_child x 0 c))))"

declare remove_successor.simps [code]

text \<open>
  The main loop of \<open>remove\<close>, from the node \<open>cur\<close>. The result is what the call
  returns or throws, whether the root has been replaced, and a node: the new root if
  the root has been replaced, \<open>cur\<close> as it is afterwards if not.
\<close>

partial_function (option) remove_loop ::
  "nat \<Rightarrow> ('a \<Rightarrow> 'a \<Rightarrow> bool) \<Rightarrow> 'a BNode \<Rightarrow> 'a \<Rightarrow>
     ((BTREE_EXCEPTION + 'a) \<times> bool \<times> 'a BNode) option" where
  "remove_loop t lt cur k =
     (let i = findIndex lt cur k
      in if i < size_of cur \<and> \<not> (lt (key cur ! i) k \<or> lt k (key cur ! i)) then
           (let toReturn = key cur ! i
            in if leaf cur then Some (Inr toReturn, False, snd (nodeDelete cur i))
               else
                 (let leftKid = child cur ! i;
                      rightKid = child cur ! Suc i
                  in if size_of leftKid \<ge> t then
                       Option.bind (remove_predecessor t lt leftKid)
                         (\<lambda>(p, c). Some (Inr toReturn, False, set_child (set_key cur i p) i c))
                     else if size_of rightKid \<ge> t then
                       Option.bind (remove_successor t lt rightKid)
                         (\<lambda>(s, c). Some (Inr toReturn, False, set_child (set_key cur i s) (Suc i) c))
                     else
                       (let (code, parent', merged) = mergeChildren cur i
                        in Option.bind (remove_loop t lt merged k)
                             (\<lambda>(res, new_root, n).
                                Some (res, new_root \<or> code = NEW_ROOT,
                                      if new_root \<or> code = NEW_ROOT then n
                                      else set_child parent' i n)))))
         else if leaf cur then Some (Inl REMOVE_KEY_NOT_FOUND, False, cur)
         else
           (let (code, x) = fixChildSize t lt cur i
            in if code = NEW_ROOT then
                 Option.bind (remove_loop t lt x k) (\<lambda>(res, new_root, n). Some (res, True, n))
               else
                 (let j = findIndex lt x k
                  in Option.bind (remove_loop t lt (child x ! j) k)
                       (\<lambda>(res, new_root, n).
                          Some (res, new_root, if new_root then n else set_child x j n)))))"

declare remove_loop.simps [code]

definition remove_bt :: "'a BTree \<Rightarrow> 'a \<Rightarrow> ((BTREE_EXCEPTION + 'a) \<times> 'a BTree) option" where
  "remove_bt T k =
     map_option (\<lambda>(res, new_root, n). (res, T\<lparr>root := n\<rparr>))
       (remove_loop (minDegree T) (lessThan T) (root T) k)"

subsection \<open>Running a sequence of calls\<close>

text \<open>
  A call of \<open>insert\<close> or \<open>remove\<close>. A \<open>remove\<close> that throws leaves the tree as
  the call has made it, and the sequence goes on from there.
\<close>

datatype 'a call = Insert 'a | Remove 'a

fun run :: "'a call list \<Rightarrow> 'a BTree \<Rightarrow> 'a BTree option" where
  "run [] T = Some T"
| "run (Insert k # cs) T = Option.bind (insert_bt T k) (run cs)"
| "run (Remove k # cs) T = Option.bind (remove_bt T k) (\<lambda>(res, T'). run cs T')"

section \<open>What the tree holds, and its invariants\<close>

text \<open>
  The in-order traversal: child 0, key 0, child 1, key 1, and so on up to the child
  after the last key.
\<close>

fun inter :: "'a list list \<Rightarrow> 'a list \<Rightarrow> 'a list" where
  "inter (c # cs) (k # ks) = c @ k # inter cs ks"
| "inter (c # cs) [] = c"
| "inter [] ks = []"

fun inorder :: "'a BNode \<Rightarrow> 'a list" where
  "inorder (BNode ks cs lf) = (if lf then ks else inter (map inorder cs) ks)"

text \<open>The keys before and after a child, in a traversal of the parent.\<close>

fun lefts :: "'a list list \<Rightarrow> 'a list \<Rightarrow> 'a list" where
  "lefts (c # cs) (k # ks) = c @ k # lefts cs ks"
| "lefts cs ks = []"

fun rights :: "'a list \<Rightarrow> 'a list list \<Rightarrow> 'a list" where
  "rights (k # ks) (c # cs) = k # c @ rights ks cs"
| "rights ks cs = []"

text \<open>The number of levels, along the first children.\<close>

fun height :: "'a BNode \<Rightarrow> nat" where
  "height (BNode ks [] lf) = 1"
| "height (BNode ks (c # cs) lf) = (if lf then 1 else Suc (height c))"

text \<open>
  The shape of a subtree whose leaves are all \<open>h\<close> levels below its top node: no node
  has more than \<open>2t - 1\<close> keys, a node that is not a leaf has one child more than it
  has keys, and every node below the top one has at least \<open>t - 1\<close> keys.
\<close>

fun bt :: "nat \<Rightarrow> nat \<Rightarrow> 'a BNode \<Rightarrow> bool" where
  "bt t 0 x = (leaf x \<and> child x = [] \<and> size_of x \<le> 2 * t - 1)"
| "bt t (Suc h) x =
     (\<not> leaf x \<and> length (child x) = Suc (size_of x) \<and> size_of x \<le> 2 * t - 1 \<and>
      (\<forall>c \<in> set (child x). t - 1 \<le> size_of c \<and> bt t h c))"

text \<open>
  The comparison function is a strict order: nothing is less than itself, and less-than
  is transitive. A key \<open>matches\<close> another when neither is less than the other.
\<close>

definition strict_order :: "('a \<Rightarrow> 'a \<Rightarrow> bool) \<Rightarrow> bool" where
  "strict_order lt = ((\<forall>a. \<not> lt a a) \<and> (\<forall>a b c. lt a b \<longrightarrow> lt b c \<longrightarrow> lt a c))"

definition matches :: "('a \<Rightarrow> 'a \<Rightarrow> bool) \<Rightarrow> 'a \<Rightarrow> 'a \<Rightarrow> bool" where
  "matches lt k y = (\<not> lt k y \<and> \<not> lt y k)"

text \<open>
  A tree without matching keys: the shape above, a root that is a leaf or has a key,
  and a strictly increasing traversal.
\<close>

definition btree_inv :: "'a BTree \<Rightarrow> bool" where
  "btree_inv T =
     ((\<exists>h. bt (minDegree T) h (root T)) \<and>
      (\<not> leaf (root T) \<longrightarrow> 1 \<le> size_of (root T)) \<and>
      sorted_wrt (lessThan T) (inorder (root T)))"

section \<open>Specifications\<close>

text \<open>
  What a traversal is after the insertion of \<open>k\<close>: the keys less than \<open>k\<close>, then \<open>k\<close>, then the others.
\<close>

definition ins_list :: "('a \<Rightarrow> 'a \<Rightarrow> bool) \<Rightarrow> 'a \<Rightarrow> 'a list \<Rightarrow> 'a list" where
  "ins_list lt k xs = filter (\<lambda>y. lt y k) xs @ k # filter (\<lambda>y. \<not> lt y k) xs"

text \<open>
  What \<open>remove\<close> does to a traversal \<open>xs\<close>: if a key matches \<open>k\<close>, one matching key is
  taken out and returned; if none does, the call throws and the traversal stays as it is.
\<close>

definition removed ::
  "('a \<Rightarrow> 'a \<Rightarrow> bool) \<Rightarrow> 'a \<Rightarrow> 'a list \<Rightarrow> BTREE_EXCEPTION + 'a \<Rightarrow> 'a list \<Rightarrow> bool" where
  "removed lt k xs res ys =
     (if \<exists>y \<in> set xs. matches lt k y
      then \<exists>l y r. res = Inr y \<and> matches lt k y \<and> xs = l @ y # r \<and> ys = l @ r
      else res = Inl REMOVE_KEY_NOT_FOUND \<and> ys = xs)"


text \<open>
  A comparison function for examples with keys that match without being equal: pairs
  of integers, compared by their first components.
\<close>

definition by_first :: "int \<times> int \<Rightarrow> int \<times> int \<Rightarrow> bool" where
  "by_first a b = (fst a < fst b)"

section \<open>The program on a store\<close>

text \<open>
  The functions above take a node for the pointer to it, which is right as long as every
  node has one parent. \<open>splitChild\<close> can store one pointer in two child slots. What the
  program does from there on is followed on a store: a node is an address, the store maps
  an address to the node that lives there, and every statement of the source reads and
  writes the store. A key slot that has not been written holds \<open>None\<close>, and so does a
  child slot; the key array of a node has \<open>2t - 1\<close> slots and the child array \<open>2t\<close>. A freed
  address holds no node. An access outside an array, to a freed node, through a pointer
  that has not been written, or to a key that has not been written, is a fault, and ends
  the run.
\<close>

datatype fault = Out_Of_Bounds | Dangling_Pointer | Uninitialised_Key

record 'a hnode =
  hkey :: "'a option list"
  hchild :: "nat option list"
  hsize :: nat
  hleaf :: bool

record 'a store =
  mem :: "'a hnode option list"
  root_ptr :: "nat option"

definition bind_f :: "fault + 'x \<Rightarrow> ('x \<Rightarrow> fault + 'y) \<Rightarrow> fault + 'y" where
  "bind_f r f = (case r of Inl e \<Rightarrow> Inl e | Inr x \<Rightarrow> f x)"

text \<open>Reading and writing the fields of the node that a pointer points to.\<close>

definition load :: "'a store \<Rightarrow> nat option \<Rightarrow> fault + 'a hnode" where
  "load s p =
     (case p of
        None \<Rightarrow> Inl Dangling_Pointer
      | Some a \<Rightarrow>
          if a < length (mem s) then
            (case mem s ! a of None \<Rightarrow> Inl Dangling_Pointer | Some n \<Rightarrow> Inr n)
          else Inl Dangling_Pointer)"

definition save :: "'a store \<Rightarrow> nat option \<Rightarrow> 'a hnode \<Rightarrow> 'a store" where
  "save s p n = s\<lparr>mem := (mem s)[the p := Some n]\<rparr>"

definition get_key :: "'a store \<Rightarrow> nat option \<Rightarrow> nat \<Rightarrow> fault + 'a" where
  "get_key s p i =
     bind_f (load s p) (\<lambda>n.
       if i < length (hkey n) then
         (case hkey n ! i of None \<Rightarrow> Inl Uninitialised_Key | Some k \<Rightarrow> Inr k)
       else Inl Out_Of_Bounds)"

definition put_key :: "'a store \<Rightarrow> nat option \<Rightarrow> nat \<Rightarrow> 'a \<Rightarrow> fault + 'a store" where
  "put_key s p i k =
     bind_f (load s p) (\<lambda>n.
       if i < length (hkey n) then Inr (save s p (n\<lparr>hkey := (hkey n)[i := Some k]\<rparr>))
       else Inl Out_Of_Bounds)"

definition get_child :: "'a store \<Rightarrow> nat option \<Rightarrow> nat \<Rightarrow> fault + nat option" where
  "get_child s p i =
     bind_f (load s p) (\<lambda>n.
       if i < length (hchild n) then Inr (hchild n ! i) else Inl Out_Of_Bounds)"

definition put_child :: "'a store \<Rightarrow> nat option \<Rightarrow> nat \<Rightarrow> nat option \<Rightarrow> fault + 'a store" where
  "put_child s p i c =
     bind_f (load s p) (\<lambda>n.
       if i < length (hchild n) then Inr (save s p (n\<lparr>hchild := (hchild n)[i := c]\<rparr>))
       else Inl Out_Of_Bounds)"

definition get_size :: "'a store \<Rightarrow> nat option \<Rightarrow> fault + nat" where
  "get_size s p = bind_f (load s p) (\<lambda>n. Inr (hsize n))"

definition put_size :: "'a store \<Rightarrow> nat option \<Rightarrow> nat \<Rightarrow> fault + 'a store" where
  "put_size s p z = bind_f (load s p) (\<lambda>n. Inr (save s p (n\<lparr>hsize := z\<rparr>)))"

definition get_leaf :: "'a store \<Rightarrow> nat option \<Rightarrow> fault + bool" where
  "get_leaf s p = bind_f (load s p) (\<lambda>n. Inr (hleaf n))"

definition put_leaf :: "'a store \<Rightarrow> nat option \<Rightarrow> bool \<Rightarrow> fault + 'a store" where
  "put_leaf s p b = bind_f (load s p) (\<lambda>n. Inr (save s p (n\<lparr>hleaf := b\<rparr>)))"

text \<open>
  \<open>malloc\<close> followed by \<open>initializeNode\<close>: a new address, the size 0, and the two arrays
  with nothing written. The leaf flag is set by the caller.
\<close>

definition new_node :: "nat \<Rightarrow> 'a store \<Rightarrow> 'a store \<times> nat option" where
  "new_node t s =
     (s\<lparr>mem := mem s @ [Some \<lparr>hkey = replicate (2 * t - 1) None,
                               hchild = replicate (2 * t) None,
                               hsize = 0, hleaf = False\<rparr>]\<rparr>,
      Some (length (mem s)))"

text \<open>The three calls of \<open>free\<close> for a node.\<close>

definition free_node :: "'a store \<Rightarrow> nat option \<Rightarrow> fault + 'a store" where
  "free_node s p = bind_f (load s p) (\<lambda>n. Inr (s\<lparr>mem := (mem s)[the p := None]\<rparr>))"

text \<open>The constructor.\<close>

definition h_new :: "nat \<Rightarrow> 'a store" where
  "h_new t =
     (let (s, r) = new_node t \<lparr>mem = [], root_ptr = None\<rparr>
      in (save s r ((the (mem s ! the r))\<lparr>hleaf := True\<rparr>))\<lparr>root_ptr := r\<rparr>)"

subsection \<open>Node helpers on the store\<close>

text \<open>
  \<open>findIndex\<close>: the loop runs while \<open>i < size\<close> and \<open>key[i] < k\<close>. The first argument
  of the loop function counts the indices that are left below \<open>size\<close>.
\<close>

primrec h_findIndex_loop ::
  "nat \<Rightarrow> ('a \<Rightarrow> 'a \<Rightarrow> bool) \<Rightarrow> 'a store \<Rightarrow> nat option \<Rightarrow> 'a \<Rightarrow> nat \<Rightarrow> fault + nat" where
  "h_findIndex_loop 0 lt s x k i = Inr i"
| "h_findIndex_loop (Suc n) lt s x k i =
     bind_f (get_key s x i) (\<lambda>y.
       if lt y k then h_findIndex_loop n lt s x k (Suc i) else Inr i)"

definition h_findIndex ::
  "('a \<Rightarrow> 'a \<Rightarrow> bool) \<Rightarrow> 'a store \<Rightarrow> nat option \<Rightarrow> 'a \<Rightarrow> fault + nat" where
  "h_findIndex lt s x k = bind_f (get_size s x) (\<lambda>z. h_findIndex_loop z lt s x k 0)"

text \<open>
  \<open>nodeInsert\<close>: the loop starts at \<open>index = size\<close> and runs while \<open>index > 0\<close> and
  \<open>k < key[index - 1]\<close>; the first argument of the loop function is \<open>index\<close>.
\<close>

primrec h_nodeInsert_loop ::
  "nat \<Rightarrow> ('a \<Rightarrow> 'a \<Rightarrow> bool) \<Rightarrow> nat option \<Rightarrow> 'a \<Rightarrow> 'a store \<Rightarrow> fault + 'a store \<times> nat" where
  "h_nodeInsert_loop 0 lt x k s = Inr (s, 0)"
| "h_nodeInsert_loop (Suc i) lt x k s =
     bind_f (get_key s x i) (\<lambda>y.
       if lt k y then
         bind_f (put_key s x (Suc i) y) (\<lambda>s1.
         bind_f (get_child s1 x (Suc i)) (\<lambda>c.
         bind_f (put_child s1 x (Suc (Suc i)) c) (\<lambda>s2.
         h_nodeInsert_loop i lt x k s2)))
       else Inr (s, Suc i))"

definition h_nodeInsert ::
  "('a \<Rightarrow> 'a \<Rightarrow> bool) \<Rightarrow> 'a store \<Rightarrow> nat option \<Rightarrow> 'a \<Rightarrow> fault + 'a store \<times> nat" where
  "h_nodeInsert lt s x k =
     bind_f (get_size s x) (\<lambda>z.
     bind_f (h_nodeInsert_loop z lt x k s) (\<lambda>(s1, index).
     bind_f (get_child s1 x index) (\<lambda>c.
     bind_f (put_child s1 x (Suc index) c) (\<lambda>s2.
     bind_f (put_key s2 x index k) (\<lambda>s3.
     bind_f (put_size s3 x (Suc z)) (\<lambda>s4.
     Inr (s4, index)))))))"

text \<open>
  \<open>nodeDelete\<close>: after \<open>size--\<close> the loop runs while \<open>index < size\<close>; the first argument
  of the loop function counts the indices that are left below \<open>size\<close>. The size is
  unsigned: \<open>size--\<close> at 0 gives the largest value, and the loop then runs out of the
  arrays.
\<close>

primrec h_nodeDelete_loop ::
  "nat \<Rightarrow> nat option \<Rightarrow> nat \<Rightarrow> 'a store \<Rightarrow> fault + 'a store" where
  "h_nodeDelete_loop 0 x index s = Inr s"
| "h_nodeDelete_loop (Suc n) x index s =
     bind_f (get_key s x (Suc index)) (\<lambda>y.
     bind_f (put_key s x index y) (\<lambda>s1.
     bind_f (get_child s1 x (Suc (Suc index))) (\<lambda>c.
     bind_f (put_child s1 x (Suc index) c) (\<lambda>s2.
     h_nodeDelete_loop n x (Suc index) s2))))"

definition h_nodeDelete :: "'a store \<Rightarrow> nat option \<Rightarrow> nat \<Rightarrow> fault + 'a store \<times> 'a" where
  "h_nodeDelete s x index =
     bind_f (get_key s x index) (\<lambda>toReturn.
     bind_f (get_size s x) (\<lambda>z.
       if z = 0 then Inl Out_Of_Bounds
       else
         bind_f (put_size s x (z - 1)) (\<lambda>s1.
         bind_f (h_nodeDelete_loop (z - 1 - index) x index s1) (\<lambda>s2.
         Inr (s2, toReturn)))))"

text \<open>\<open>splitChild\<close>, with its two copying loops; \<open>j\<close> counts up, the first argument down.\<close>

primrec h_split_keys ::
  "nat \<Rightarrow> nat \<Rightarrow> nat option \<Rightarrow> nat option \<Rightarrow> nat \<Rightarrow> 'a store \<Rightarrow> fault + 'a store" where
  "h_split_keys 0 t newNode toSplit j s = Inr s"
| "h_split_keys (Suc n) t newNode toSplit j s =
     bind_f (get_key s toSplit (j + t)) (\<lambda>y.
     bind_f (put_key s newNode j y) (\<lambda>s1.
     h_split_keys n t newNode toSplit (Suc j) s1))"

primrec h_split_children ::
  "nat \<Rightarrow> nat \<Rightarrow> nat option \<Rightarrow> nat option \<Rightarrow> nat \<Rightarrow> 'a store \<Rightarrow> fault + 'a store" where
  "h_split_children 0 t newNode toSplit j s = Inr s"
| "h_split_children (Suc n) t newNode toSplit j s =
     bind_f (get_child s toSplit (j + t)) (\<lambda>c.
     bind_f (put_child s newNode j c) (\<lambda>s1.
     h_split_children n t newNode toSplit (Suc j) s1))"

definition h_splitChild ::
  "nat \<Rightarrow> ('a \<Rightarrow> 'a \<Rightarrow> bool) \<Rightarrow> 'a store \<Rightarrow> nat option \<Rightarrow> nat \<Rightarrow> fault + 'a store" where
  "h_splitChild t lt s x i =
     bind_f (get_child s x i) (\<lambda>toSplit.
     (let (s1, newNode) = new_node t s in
      bind_f (get_leaf s1 toSplit) (\<lambda>lf.
      bind_f (put_leaf s1 newNode lf) (\<lambda>s2.
      bind_f (put_size s2 newNode (t - 1)) (\<lambda>s3.
      bind_f (h_split_keys (t - 1) t newNode toSplit 0 s3) (\<lambda>s4.
      bind_f (if lf then Inr s4 else h_split_children t t newNode toSplit 0 s4) (\<lambda>s5.
      bind_f (put_size s5 toSplit (t - 1)) (\<lambda>s6.
      bind_f (get_key s6 toSplit (t - 1)) (\<lambda>m.
      bind_f (h_nodeInsert lt s6 x m) (\<lambda>(s7, index).
      put_child s7 x (Suc i) newNode))))))))))"

subsection \<open>Insertion on the store\<close>

primrec h_insert_index ::
  "nat \<Rightarrow> ('a \<Rightarrow> 'a \<Rightarrow> bool) \<Rightarrow> 'a store \<Rightarrow> nat option \<Rightarrow> 'a \<Rightarrow> fault + nat" where
  "h_insert_index 0 lt s cur k = Inr 0"
| "h_insert_index (Suc i) lt s cur k =
     bind_f (get_key s cur i) (\<lambda>y.
       if lt k y then h_insert_index i lt s cur k else Inr (Suc i))"

text \<open>One round of the loop of \<open>insert\<close>: the store afterwards and the child to go to.\<close>

definition h_insert_step ::
  "nat \<Rightarrow> ('a \<Rightarrow> 'a \<Rightarrow> bool) \<Rightarrow> 'a \<Rightarrow> 'a store \<Rightarrow> nat option \<Rightarrow>
     fault + 'a store \<times> nat option" where
  "h_insert_step t lt k s cur =
     bind_f (get_size s cur) (\<lambda>z.
     bind_f (h_insert_index z lt s cur k) (\<lambda>index.
     bind_f (get_child s cur index) (\<lambda>c.
     bind_f (get_size s c) (\<lambda>cz.
       if cz = 2 * t - 1 then
         bind_f (h_splitChild t lt s cur index) (\<lambda>s1.
         bind_f (get_key s1 cur index) (\<lambda>y.
         bind_f (get_child s1 cur (if lt y k then Suc index else index)) (\<lambda>c1.
         Inr (s1, c1))))
       else Inr (s, c)))))"

partial_function (option) h_insert_loop ::
  "nat \<Rightarrow> ('a \<Rightarrow> 'a \<Rightarrow> bool) \<Rightarrow> 'a \<Rightarrow> 'a store \<Rightarrow> nat option \<Rightarrow> (fault + 'a store) option" where
  "h_insert_loop t lt k s cur =
     (case get_leaf s cur of
        Inl e \<Rightarrow> Some (Inl e)
      | Inr lf \<Rightarrow>
          if lf then Some (bind_f (h_nodeInsert lt s cur k) (\<lambda>(s1, index). Inr s1))
          else
            (case h_insert_step t lt k s cur of
               Inl e \<Rightarrow> Some (Inl e)
             | Inr (s1, c) \<Rightarrow> h_insert_loop t lt k s1 c))"

declare h_insert_loop.simps [code]

definition h_insert ::
  "nat \<Rightarrow> ('a \<Rightarrow> 'a \<Rightarrow> bool) \<Rightarrow> 'a store \<Rightarrow> 'a \<Rightarrow> (fault + 'a store) option" where
  "h_insert t lt s k =
     (case get_size s (root_ptr s) of
        Inl e \<Rightarrow> Some (Inl e)
      | Inr z \<Rightarrow>
          (case (if z = 2 * t - 1 then
                   (let (s1, newRoot) = new_node t s in
                    bind_f (put_leaf s1 newRoot False) (\<lambda>s2.
                    bind_f (put_child s2 newRoot 0 (root_ptr s2)) (\<lambda>s3.
                    h_splitChild t lt (s3\<lparr>root_ptr := newRoot\<rparr>) newRoot 0)))
                 else Inr s) of
             Inl e \<Rightarrow> Some (Inl e)
           | Inr s4 \<Rightarrow> h_insert_loop t lt k s4 (root_ptr s4)))"

subsection \<open>Search on the store\<close>

partial_function (option) h_search_loop ::
  "('a \<Rightarrow> 'a \<Rightarrow> bool) \<Rightarrow> 'a store \<Rightarrow> nat option \<Rightarrow> 'a \<Rightarrow> (fault + nat option \<times> nat) option" where
  "h_search_loop lt s x k =
     (case bind_f (h_findIndex lt s x k) (\<lambda>i.
           bind_f (get_size s x) (\<lambda>z.
           bind_f (if i < z then bind_f (get_key s x i) (\<lambda>y. Inr (\<not> (lt k y \<or> lt y k)))
                   else Inr False) (\<lambda>found.
           bind_f (get_leaf s x) (\<lambda>lf.
           bind_f (if found \<or> lf then Inr None else get_child s x i) (\<lambda>c.
           Inr (i, found, lf, c)))))) of
        Inl e \<Rightarrow> Some (Inl e)
      | Inr (i, found, lf, c) \<Rightarrow>
          if found then Some (Inr (x, i))
          else if lf then Some (Inr (None, 0))
          else h_search_loop lt s c k)"

declare h_search_loop.simps [code]

definition h_search ::
  "('a \<Rightarrow> 'a \<Rightarrow> bool) \<Rightarrow> 'a store \<Rightarrow> 'a \<Rightarrow> (fault + nat option \<times> nat) option" where
  "h_search lt s k = h_search_loop lt s (root_ptr s) k"

definition h_searchKey ::
  "('a \<Rightarrow> 'a \<Rightarrow> bool) \<Rightarrow> 'a store \<Rightarrow> 'a \<Rightarrow> (fault + BTREE_EXCEPTION + 'a) option" where
  "h_searchKey lt s k =
     map_option (\<lambda>r. bind_f r (\<lambda>(node, i).
         if node = None then Inr (Inl SEARCH_KEY_NOT_FOUND)
         else bind_f (get_key s node i) (\<lambda>y. Inr (Inr y))))
       (h_search lt s k)"

subsection \<open>Deletion on the store\<close>

text \<open>
  The copying loop of \<open>mergeChildren\<close>; \<open>k\<close> counts up, the first argument counts the
  indices that are left below the size of the right child.
\<close>

primrec h_merge_loop ::
  "nat \<Rightarrow> nat option \<Rightarrow> nat option \<Rightarrow> nat \<Rightarrow> nat \<Rightarrow> 'a store \<Rightarrow> fault + 'a store" where
  "h_merge_loop 0 leftKid rightKid j k s = Inr s"
| "h_merge_loop (Suc n) leftKid rightKid j k s =
     bind_f (get_key s rightKid k) (\<lambda>y.
     bind_f (put_key s leftKid (j + k) y) (\<lambda>s1.
     bind_f (get_child s1 rightKid k) (\<lambda>c.
     bind_f (put_child s1 leftKid (j + k) c) (\<lambda>s2.
     h_merge_loop n leftKid rightKid j (Suc k) s2))))"

definition h_mergeChildren :: "'a store \<Rightarrow> nat option \<Rightarrow> nat \<Rightarrow> fault + 'a store \<times> nat" where
  "h_mergeChildren s parent i =
     bind_f (get_child s parent i) (\<lambda>leftKid.
     bind_f (get_child s parent (Suc i)) (\<lambda>rightKid.
     bind_f (h_nodeDelete s parent i) (\<lambda>(s1, sep).
     bind_f (get_size s1 leftKid) (\<lambda>lz.
     bind_f (put_key s1 leftKid lz sep) (\<lambda>s2.
     bind_f (get_size s2 leftKid) (\<lambda>lz2.
     bind_f (put_size s2 leftKid (Suc lz2)) (\<lambda>s3.
     bind_f (get_size s3 rightKid) (\<lambda>rz.
     bind_f (h_merge_loop rz leftKid rightKid (Suc lz2) 0 s3) (\<lambda>s4.
     bind_f (get_size s4 leftKid) (\<lambda>lz3.
     bind_f (get_size s4 rightKid) (\<lambda>rz2.
     bind_f (put_size s4 leftKid (lz3 + rz2)) (\<lambda>s5.
     bind_f (get_size s5 rightKid) (\<lambda>rz3.
     bind_f (get_child s5 rightKid rz3) (\<lambda>c.
     bind_f (get_size s5 leftKid) (\<lambda>lz4.
     bind_f (put_child s5 leftKid lz4 c) (\<lambda>s6.
     bind_f (free_node s6 rightKid) (\<lambda>s7.
     bind_f (get_size s7 parent) (\<lambda>pz.
       if pz = 0 then
         bind_f (free_node (s7\<lparr>root_ptr := leftKid\<rparr>) parent) (\<lambda>s8. Inr (s8, NEW_ROOT))
       else Inr (s7, MODIFIED_NOT_ROOT)))))))))))))))))))"

text \<open>The loop of \<open>fixChildSize\<close> that moves child pointers to the right, from \<open>i\<close> down.\<close>

primrec h_shift_loop :: "nat \<Rightarrow> nat option \<Rightarrow> 'a store \<Rightarrow> fault + 'a store" where
  "h_shift_loop 0 kid s = Inr s"
| "h_shift_loop (Suc i) kid s =
     bind_f (get_child s kid i) (\<lambda>c.
     bind_f (put_child s kid (Suc i) c) (\<lambda>s1.
     h_shift_loop i kid s1))"

definition h_fixChildSize ::
  "nat \<Rightarrow> ('a \<Rightarrow> 'a \<Rightarrow> bool) \<Rightarrow> 'a store \<Rightarrow> nat option \<Rightarrow> nat \<Rightarrow> fault + 'a store \<times> nat" where
  "h_fixChildSize t lt s parent index =
     bind_f (get_child s parent index) (\<lambda>kid.
     bind_f (get_size s kid) (\<lambda>kz.
       if kz < t then
         bind_f (if index \<noteq> 0
                 then bind_f (get_child s parent (index - 1)) (\<lambda>l.
                      bind_f (get_size s l) (\<lambda>z. Inr (t \<le> z)))
                 else Inr False) (\<lambda>from_left.
         if from_left then
           bind_f (get_child s parent (index - 1)) (\<lambda>leftKid.
           bind_f (get_key s parent (index - 1)) (\<lambda>sep.
           bind_f (h_nodeInsert lt s kid sep) (\<lambda>(s1, i).
           bind_f (h_shift_loop i kid s1) (\<lambda>s2.
           bind_f (get_size s2 leftKid) (\<lambda>lz.
           bind_f (get_child s2 leftKid lz) (\<lambda>c.
           bind_f (put_child s2 kid 0 c) (\<lambda>s3.
           bind_f (get_size s3 leftKid) (\<lambda>lz1.
           bind_f (h_nodeDelete s3 leftKid (lz1 - 1)) (\<lambda>(s4, up).
           bind_f (put_key s4 parent (index - 1) up) (\<lambda>s5.
           Inr (s5, MODIFIED_NOT_ROOT)))))))))))
         else
           bind_f (get_size s parent) (\<lambda>pz.
           bind_f (if index \<noteq> pz
                   then bind_f (get_child s parent (Suc index)) (\<lambda>r.
                        bind_f (get_size s r) (\<lambda>z. Inr (t \<le> z)))
                   else Inr False) (\<lambda>from_right.
           if from_right then
             bind_f (get_child s parent (Suc index)) (\<lambda>rightKid.
             bind_f (get_key s parent index) (\<lambda>sep.
             bind_f (h_nodeInsert lt s kid sep) (\<lambda>(s1, i).
             bind_f (get_child s1 rightKid 0) (\<lambda>c.
             bind_f (get_size s1 kid) (\<lambda>kz1.
             bind_f (put_child s1 kid kz1 c) (\<lambda>s2.
             bind_f (get_child s2 rightKid 1) (\<lambda>c1.
             bind_f (put_child s2 rightKid 0 c1) (\<lambda>s3.
             bind_f (h_nodeDelete s3 rightKid 0) (\<lambda>(s4, up).
             bind_f (put_key s4 parent index up) (\<lambda>s5.
             Inr (s5, MODIFIED_NOT_ROOT)))))))))))
           else if index \<noteq> 0 then h_mergeChildren s parent (index - 1)
           else h_mergeChildren s parent index)))
       else Inr (s, NOT_MODIFIED)))"

text \<open>
  The two inner loops of \<open>remove\<close>. The result is the store and the leaf the loop has
  ended at.
\<close>

partial_function (option) h_remove_predecessor ::
  "nat \<Rightarrow> ('a \<Rightarrow> 'a \<Rightarrow> bool) \<Rightarrow> 'a store \<Rightarrow> nat option \<Rightarrow>
     (fault + 'a store \<times> nat option) option" where
  "h_remove_predecessor t lt s leftKid =
     (case bind_f (get_leaf s leftKid) (\<lambda>lf.
           if lf then Inr (True, s, leftKid)
           else
             bind_f (get_size s leftKid) (\<lambda>z.
             bind_f (h_fixChildSize t lt s leftKid z) (\<lambda>(s1, code).
             bind_f (get_size s1 leftKid) (\<lambda>z1.
             bind_f (get_child s1 leftKid z1) (\<lambda>c.
             Inr (False, s1, c)))))) of
        Inl e \<Rightarrow> Some (Inl e)
      | Inr (lf, s1, c) \<Rightarrow>
          if lf then Some (Inr (s1, c)) else h_remove_predecessor t lt s1 c)"

declare h_remove_predecessor.simps [code]

partial_function (option) h_remove_successor ::
  "nat \<Rightarrow> ('a \<Rightarrow> 'a \<Rightarrow> bool) \<Rightarrow> 'a store \<Rightarrow> nat option \<Rightarrow>
     (fault + 'a store \<times> nat option) option" where
  "h_remove_successor t lt s rightKid =
     (case bind_f (get_leaf s rightKid) (\<lambda>lf.
           if lf then Inr (True, s, rightKid)
           else
             bind_f (h_fixChildSize t lt s rightKid 0) (\<lambda>(s1, code).
             bind_f (get_child s1 rightKid 0) (\<lambda>c.
             Inr (False, s1, c)))) of
        Inl e \<Rightarrow> Some (Inl e)
      | Inr (lf, s1, c) \<Rightarrow>
          if lf then Some (Inr (s1, c)) else h_remove_successor t lt s1 c)"

declare h_remove_successor.simps [code]

text \<open>
  The main loop of \<open>remove\<close>, from the node \<open>cur\<close>. The result is the store and what the
  call returns or throws.
\<close>

partial_function (option) h_remove_loop ::
  "nat \<Rightarrow> ('a \<Rightarrow> 'a \<Rightarrow> bool) \<Rightarrow> 'a \<Rightarrow> 'a store \<Rightarrow> nat option \<Rightarrow>
     (fault + 'a store \<times> (BTREE_EXCEPTION + 'a)) option" where
  "h_remove_loop t lt k s cur =
     (case bind_f (h_findIndex lt s cur k) (\<lambda>i.
           bind_f (get_size s cur) (\<lambda>z.
           bind_f (if i < z then bind_f (get_key s cur i) (\<lambda>y. Inr (\<not> (lt y k \<or> lt k y)))
                   else Inr False) (\<lambda>found.
           bind_f (get_leaf s cur) (\<lambda>lf. Inr (i, found, lf))))) of
        Inl e \<Rightarrow> Some (Inl e)
      | Inr (i, found, lf) \<Rightarrow>
          if found then
            (case get_key s cur i of
               Inl e \<Rightarrow> Some (Inl e)
             | Inr toReturn \<Rightarrow>
                 if lf then
                   Some (bind_f (h_nodeDelete s cur i) (\<lambda>(s1, y). Inr (s1, Inr toReturn)))
                 else
                   (case bind_f (get_child s cur i) (\<lambda>leftKid.
                         bind_f (get_child s cur (Suc i)) (\<lambda>rightKid.
                         bind_f (get_size s leftKid) (\<lambda>lz.
                         bind_f (if t \<le> lz then Inr False
                                 else bind_f (get_size s rightKid) (\<lambda>rz. Inr (t \<le> rz)))
                           (\<lambda>right_big. Inr (leftKid, rightKid, t \<le> lz, right_big))))) of
                      Inl e \<Rightarrow> Some (Inl e)
                    | Inr (leftKid, rightKid, left_big, right_big) \<Rightarrow>
                        if left_big then
                          map_option (\<lambda>r. bind_f r (\<lambda>(s1, l).
                              bind_f (get_size s1 l) (\<lambda>lz.
                              bind_f (h_nodeDelete s1 l (lz - 1)) (\<lambda>(s2, p).
                              bind_f (put_key s2 cur i p) (\<lambda>s3. Inr (s3, Inr toReturn))))))
                            (h_remove_predecessor t lt s leftKid)
                        else if right_big then
                          map_option (\<lambda>r. bind_f r (\<lambda>(s1, l).
                              bind_f (h_nodeDelete s1 l 0) (\<lambda>(s2, p).
                              bind_f (put_key s2 cur i p) (\<lambda>s3. Inr (s3, Inr toReturn)))))
                            (h_remove_successor t lt s rightKid)
                        else
                          (case h_mergeChildren s cur i of
                             Inl e \<Rightarrow> Some (Inl e)
                           | Inr (s1, code) \<Rightarrow> h_remove_loop t lt k s1 leftKid)))
          else if lf then Some (Inr (s, Inl REMOVE_KEY_NOT_FOUND))
          else
            (case bind_f (h_fixChildSize t lt s cur i) (\<lambda>(s1, result).
                  if result = NEW_ROOT then Inr (s1, root_ptr s1)
                  else bind_f (h_findIndex lt s1 cur k) (\<lambda>j.
                       bind_f (get_child s1 cur j) (\<lambda>c. Inr (s1, c)))) of
               Inl e \<Rightarrow> Some (Inl e)
             | Inr (s1, c) \<Rightarrow> h_remove_loop t lt k s1 c))"

declare h_remove_loop.simps [code]

definition h_remove ::
  "nat \<Rightarrow> ('a \<Rightarrow> 'a \<Rightarrow> bool) \<Rightarrow> 'a store \<Rightarrow> 'a \<Rightarrow>
     (fault + 'a store \<times> (BTREE_EXCEPTION + 'a)) option" where
  "h_remove t lt s k = h_remove_loop t lt k s (root_ptr s)"

text \<open>
  A sequence of calls on the store, from the left. A fault ends the run; a \<open>remove\<close> that
  throws does not.
\<close>

fun h_run ::
  "nat \<Rightarrow> ('a \<Rightarrow> 'a \<Rightarrow> bool) \<Rightarrow> 'a call list \<Rightarrow> 'a store \<Rightarrow> (fault + 'a store) option" where
  "h_run t lt [] s = Some (Inr s)"
| "h_run t lt (Insert k # cs) s =
     (case h_insert t lt s k of
        None \<Rightarrow> None
      | Some (Inl e) \<Rightarrow> Some (Inl e)
      | Some (Inr s1) \<Rightarrow> h_run t lt cs s1)"
| "h_run t lt (Remove k # cs) s =
     (case h_remove t lt s k of
        None \<Rightarrow> None
      | Some (Inl e) \<Rightarrow> Some (Inl e)
      | Some (Inr (s1, r)) \<Rightarrow> h_run t lt cs s1)"

text \<open>
  The tree that the store holds below a pointer, down to the given depth: the keys and
  the child pointers of the live slots. \<open>None\<close> stands for a pointer that leads to no node.
\<close>

datatype 'a shape = Shape nat "'a option list" "'a shape option list"

primrec h_shape :: "nat \<Rightarrow> 'a store \<Rightarrow> nat option \<Rightarrow> 'a shape option" where
  "h_shape 0 s p = None"
| "h_shape (Suc d) s p =
     (case load s p of
        Inl e \<Rightarrow> None
      | Inr n \<Rightarrow>
          Some (Shape (the p) (take (hsize n) (hkey n))
                  (if hleaf n then []
                   else map (h_shape d s) (take (Suc (hsize n)) (hchild n)))))"

text \<open>
  What a sequence of calls on the new tree ends with: a fault, or the tree in the store;
  and what \<open>search\<close> and \<open>searchKey\<close> return after the sequence.
\<close>

definition h_tree_after ::
  "nat \<Rightarrow> ('a \<Rightarrow> 'a \<Rightarrow> bool) \<Rightarrow> 'a call list \<Rightarrow> (fault + 'a shape option) option" where
  "h_tree_after t lt cs =
     (case h_run t lt cs (h_new t) of
        None \<Rightarrow> None
      | Some (Inl e) \<Rightarrow> Some (Inl e)
      | Some (Inr s) \<Rightarrow> Some (Inr (h_shape (length (mem s)) s (root_ptr s))))"

definition h_search_after ::
  "nat \<Rightarrow> ('a \<Rightarrow> 'a \<Rightarrow> bool) \<Rightarrow> 'a call list \<Rightarrow> 'a \<Rightarrow> (fault + nat option \<times> nat) option" where
  "h_search_after t lt cs k =
     (case h_run t lt cs (h_new t) of
        None \<Rightarrow> None
      | Some (Inl e) \<Rightarrow> Some (Inl e)
      | Some (Inr s) \<Rightarrow> h_search lt s k)"

definition h_searchKey_after ::
  "nat \<Rightarrow> ('a \<Rightarrow> 'a \<Rightarrow> bool) \<Rightarrow> 'a call list \<Rightarrow> 'a \<Rightarrow> (fault + BTREE_EXCEPTION + 'a) option" where
  "h_searchKey_after t lt cs k =
     (case h_run t lt cs (h_new t) of
        None \<Rightarrow> None
      | Some (Inl e) \<Rightarrow> Some (Inl e)
      | Some (Inr s) \<Rightarrow> h_searchKey lt s k)"

section \<open>Lemmas\<close>

subsection \<open>Traversals, and the index loops\<close>

lemma strict_orderD:
  assumes "strict_order lt"
  shows "\<not> lt a a" and "lt a b \<Longrightarrow> lt b c \<Longrightarrow> lt a c" and "lt a b \<Longrightarrow> \<not> lt b a"
  using assms unfolding strict_order_def by blast+

lemma inter_append:
  "length cl = length kl \<Longrightarrow> inter (cl @ cr) (kl @ kr) = lefts cl kl @ inter cr kr"
  by (induction cl kl rule: list_induct2) auto

lemma inter_Cons_rights:
  "length cs = length ks \<Longrightarrow> inter (c # cs) ks = c @ rights ks cs"
  by (induction cs ks arbitrary: c rule: list_induct2) auto

lemma lefts_append:
  "length cl = length kl \<Longrightarrow> lefts (cl @ cr) (kl @ kr) = lefts cl kl @ lefts cr kr"
  by (induction cl kl rule: list_induct2) auto

lemma rights_append:
  "length kl = length cl \<Longrightarrow> rights (kl @ kr) (cl @ cr) = rights kl cl @ rights kr cr"
  by (induction kl cl rule: list_induct2) auto

lemma inorder_zip:
  "length cl = length kl \<Longrightarrow> length cr = length kr \<Longrightarrow>
   inorder (BNode (kl @ kr) (cl @ c # cr) False) =
     lefts (map inorder cl) kl @ inorder c @ rights kr (map inorder cr)"
  by (simp add: inter_append inter_Cons_rights)

lemma nodeInsert_index_le: "nodeInsert_index lt ks k n \<le> n"
  by (induction n) auto



lemma nodeInsert_index_eq:
  "j \<le> n \<Longrightarrow> (\<forall>i. j \<le> i \<and> i < n \<longrightarrow> lt k (ks ! i)) \<Longrightarrow> (0 < j \<Longrightarrow> \<not> lt k (ks ! (j - 1)))
   \<Longrightarrow> nodeInsert_index lt ks k n = j"
proof (induction n)
  case 0 then show ?case by simp
next
  case (Suc n)
  show ?case
  proof (cases "j = Suc n")
    case True
    with Suc.prems show ?thesis by simp
  next
    case False
    with Suc.prems have "j \<le> n" by simp
    moreover from Suc.prems False have "lt k (ks ! n)" by simp
    ultimately show ?thesis using Suc by simp
  qed
qed

lemma findIndex_keys_le: "findIndex_keys lt ks k \<le> length ks"
  by (induction ks) auto

lemma findIndex_keys_before: "i < findIndex_keys lt ks k \<Longrightarrow> lt (ks ! i) k"
proof (induction ks arbitrary: i)
  case Nil then show ?case by simp
next
  case (Cons a ks)
  then show ?case by (cases i) (auto split: if_splits)
qed

lemma findIndex_keys_at:
  "findIndex_keys lt ks k < length ks \<Longrightarrow> \<not> lt (ks ! findIndex_keys lt ks k) k"
  by (induction ks) auto

lemma findIndex_keys_eq:
  "j \<le> length ks \<Longrightarrow> (\<forall>i < j. lt (ks ! i) k) \<Longrightarrow> (j < length ks \<Longrightarrow> \<not> lt (ks ! j) k)
   \<Longrightarrow> findIndex_keys lt ks k = j"
proof (induction ks arbitrary: j)
  case Nil then show ?case by simp
next
  case (Cons a ks)
  show ?case
  proof (cases j)
    case 0
    with Cons.prems show ?thesis by simp
  next
    case (Suc j')
    with Cons.prems have "lt a k" by auto
    moreover have "findIndex_keys lt ks k = j'"
      using Cons.prems Suc by (intro Cons.IH) auto
    ultimately show ?thesis using Suc by simp
  qed
qed

lemma shift_children_eq:
  "j < length ds \<Longrightarrow> shift_children j ds = ds ! 0 # take j ds @ drop (Suc j) ds"
proof (induction j arbitrary: ds)
  case 0
  then show ?case by (cases ds) auto
next
  case (Suc j)
  let ?ds = "ds[Suc j := ds ! j]"
  have "shift_children (Suc j) ds = shift_children j ?ds" by simp
  also have "\<dots> = ?ds ! 0 # take j ?ds @ drop (Suc j) ?ds"
    using Suc.prems by (intro Suc.IH) simp
  also have "\<dots> = ds ! 0 # take (Suc j) ds @ drop (Suc (Suc j)) ds"
  proof -
    have a: "?ds ! 0 = ds ! 0" by simp
    have b: "take j ?ds = take j ds" by simp
    have c: "drop (Suc j) ?ds = ds ! j # drop (Suc (Suc j)) ds"
      using Suc.prems by (simp add: upd_conv_take_nth_drop)
    show ?thesis unfolding a b c using Suc.prems by (simp add: take_Suc_conv_app_nth)
  qed
  finally show ?case .
qed

lemma shift_children_Nil [simp]: "shift_children j [] = []"
  by (induction j) auto

subsection \<open>Views of a node, nodeInsert and splitChild\<close>

lemma size_of_BNode [simp]: "size_of (BNode ks cs lf) = length ks"
  by (simp add: size_of_def)

lemma lefts_snoc:
  "length cs = length ks \<Longrightarrow> lefts (cs @ [c]) (ks @ [k]) = lefts cs ks @ c @ [k]"
  by (simp add: lefts_append)

lemma lefts_bound:
  assumes tr: "strict_order lt"
    and len: "length cl = length kl"
    and srt: "sorted_wrt lt (lefts cl kl)"
    and lst: "kl \<noteq> [] \<Longrightarrow> lt (last kl) k"
    and y: "y \<in> set (lefts cl kl)"
  shows "lt y k"
proof (cases kl rule: rev_cases)
  case Nil
  with len y show ?thesis by simp
next
  case (snoc ks' k')
  with len obtain cs' c' where cl: "cl = cs' @ [c']" and len': "length cs' = length ks'"
    by (cases cl rule: rev_cases) auto
  have eq: "lefts cl kl = (lefts cs' ks' @ c') @ [k']"
    using len' by (simp add: cl snoc lefts_snoc)
  from lst snoc have k': "lt k' k" by simp
  from y eq have "y = k' \<or> y \<in> set (lefts cs' ks' @ c')" by auto
  moreover have "lt z k'" if "z \<in> set (lefts cs' ks' @ c')" for z
    using srt that unfolding eq sorted_wrt_append by auto
  ultimately show ?thesis using k' strict_orderD(2)[OF tr] by blast
qed

lemma rights_bound:
  assumes tr: "strict_order lt"
    and len: "length kr = length cr"
    and srt: "sorted_wrt lt (rights kr cr)"
    and fst: "kr \<noteq> [] \<Longrightarrow> lt k (hd kr)"
    and y: "y \<in> set (rights kr cr)"
  shows "lt k y"
proof (cases kr)
  case Nil
  with y show ?thesis by simp
next
  case (Cons k' ks')
  with len obtain c' cs' where cr: "cr = c' # cs'" by (cases cr) auto
  have eq: "rights kr cr = k' # (c' @ rights ks' cs')" by (simp add: cr Cons)
  from fst Cons have k': "lt k k'" by simp
  from y eq have "y = k' \<or> y \<in> set (c' @ rights ks' cs')" by auto
  moreover have "lt k' z" if "z \<in> set (c' @ rights ks' cs')" for z
    using srt that unfolding eq by auto
  ultimately show ?thesis using k' strict_orderD(2)[OF tr] by blast
qed

text \<open>The view of an internal node around the child at index j.\<close>

lemma bt_zip:
  assumes "bt t (Suc h) x" "j \<le> size_of x"
  obtains kl kr cl c cr where
    "x = BNode (kl @ kr) (cl @ c # cr) False"
    "length kl = j" "length cl = j" "length cr = length kr"
    "kl = take j (key x)" "kr = drop j (key x)" "c = child x ! j"
proof -
  obtain ks cs lf where x: "x = BNode ks cs lf" by (cases x)
  from assms have lf: "\<not> lf" and len: "length cs = Suc (length ks)" and j: "j \<le> length ks"
    by (auto simp: x size_of_def)
  have jc: "j < length cs" using len j by simp
  have ceq: "cs = take j cs @ cs ! j # drop (Suc j) cs"
    using jc by (rule id_take_nth_drop)
  have xeq: "x = BNode (take j ks @ drop j ks) (take j cs @ cs ! j # drop (Suc j) cs) False"
    unfolding x using lf ceq by simp
  show ?thesis
  proof (rule that[of "take j ks" "drop j ks" "take j cs" "cs ! j" "drop (Suc j) cs"])
    show "x = BNode (take j ks @ drop j ks) (take j cs @ cs ! j # drop (Suc j) cs) False"
      by (rule xeq)
  qed (use len j in \<open>simp_all add: x\<close>)
qed

lemma bt_BNode:
  "bt t (Suc h) (BNode ks cs lf) =
     (\<not> lf \<and> length cs = Suc (length ks) \<and> length ks \<le> 2 * t - 1 \<and>
      (\<forall>c \<in> set cs. t - 1 \<le> size_of c \<and> bt t h c))"
  by (simp add: size_of_def)

lemma bt_leaf:
  "bt t 0 (BNode ks cs lf) = (lf \<and> cs = [] \<and> length ks \<le> 2 * t - 1)"
  by (simp add: size_of_def)

lemma bt_leaf_iff: "bt t h x \<Longrightarrow> leaf x \<longleftrightarrow> h = 0"
  by (cases h) auto

lemma nodeInsert_index_append:
  assumes "\<forall>y \<in> set kr. lt m y" "kl \<noteq> [] \<Longrightarrow> \<not> lt m (last kl)"
  shows "nodeInsert_index lt (kl @ kr) m (length kl + length kr) = length kl"
proof (rule nodeInsert_index_eq)
  show "length kl \<le> length kl + length kr" by simp
  show "\<forall>i. length kl \<le> i \<and> i < length kl + length kr \<longrightarrow> lt m ((kl @ kr) ! i)"
    using assms(1) by (auto simp: nth_append)
  show "\<not> lt m ((kl @ kr) ! (length kl - 1))" if "0 < length kl"
    using that assms(2) by (auto simp: nth_append last_conv_nth)
qed

lemma nodeInsert_zip:
  assumes "\<forall>y \<in> set kr. lt m y" "kl \<noteq> [] \<Longrightarrow> \<not> lt m (last kl)"
    and "length cl = length kl"
  shows "nodeInsert lt (BNode (kl @ kr) (cl @ c # cr) lf) m =
           (BNode (kl @ m # kr) (cl @ c # c # cr) lf, length kl)"
proof -
  have "nodeInsert_index lt (kl @ kr) m (length kl + length kr) = length kl"
    using assms(1,2) by (rule nodeInsert_index_append)
  then show ?thesis using assms(3) by (simp add: nodeInsert_def size_of_def)
qed

lemma nodeInsert_leaf:
  assumes "\<forall>y \<in> set kr. lt m y" "kl \<noteq> [] \<Longrightarrow> \<not> lt m (last kl)"
  shows "nodeInsert lt (BNode (kl @ kr) [] lf) m = (BNode (kl @ m # kr) [] lf, length kl)"
proof -
  have "nodeInsert_index lt (kl @ kr) m (length kl + length kr) = length kl"
    using assms(1,2) by (rule nodeInsert_index_append)
  then show ?thesis by (simp add: nodeInsert_def size_of_def)
qed

lemma splitChild_zip:
  assumes "\<forall>y \<in> set kr. lt (ck ! (t - 1)) y" "kl \<noteq> [] \<Longrightarrow> \<not> lt (ck ! (t - 1)) (last kl)"
    and "length cl = length kl"
    and x: "x = BNode (kl @ kr) (cl @ BNode ck cc cf # cr) lf"
  shows "splitChild t lt x (length kl) =
           BNode (kl @ ck ! (t - 1) # kr)
                 (cl @ BNode (take (t - 1) ck) (take t cc) cf
                      # BNode (take (t - 1) (drop t ck)) (if cf then [] else take t (drop t cc)) cf
                      # cr) lf"
proof -
  define m where "m = ck ! (t - 1)"
  have a: "child x ! length kl = BNode ck cc cf"
    using assms(3) by (simp add: x nth_append)
  have b: "set_child x (length kl) c' = BNode (kl @ kr) (cl @ c' # cr) lf" for c'
    using assms(3) by (simp add: x set_child_def list_update_append)
  have c: "nodeInsert lt (BNode (kl @ kr) (cl @ c' # cr) lf) m =
           (BNode (kl @ m # kr) (cl @ c' # c' # cr) lf, length kl)" for c'
    using assms(1-3) unfolding m_def by (rule nodeInsert_zip)
  have d: "set_child (BNode (kl @ m # kr) (cl @ c' # c' # cr) lf) (Suc (length kl)) n =
           BNode (kl @ m # kr) (cl @ c' # n # cr) lf" for c' n
    using assms(3) by (simp add: set_child_def list_update_append)
  have "splitChild t lt x (length kl) =
          set_child (fst (nodeInsert lt (set_child x (length kl)
              (BNode (take (t - 1) ck) (take t cc) cf)) m)) (Suc (length kl))
              (BNode (take (t - 1) (drop t ck)) (if cf then [] else take t (drop t cc)) cf)"
    unfolding splitChild_def Let_def a m_def by simp
  also have "\<dots> = BNode (kl @ m # kr)
                 (cl @ BNode (take (t - 1) ck) (take t cc) cf
                      # BNode (take (t - 1) (drop t ck)) (if cf then [] else take t (drop t cc)) cf
                      # cr) lf"
    unfolding b c fst_conv d ..
  finally show ?thesis unfolding m_def .
qed

subsection \<open>Insertion into a traversal\<close>



lemma set_ins_list [simp]: "set (ins_list lt k xs) = insert k (set xs)"
  by (auto simp: ins_list_def)


lemma inter_split:
  "length cl = Suc (length kl) \<Longrightarrow>
   inter (cl @ cr) (kl @ k # kr) = inter cl kl @ k # inter cr kr"
proof (induction kl arbitrary: cl)
  case Nil
  then obtain c where "cl = [c]" by (cases cl) auto
  then show ?case by simp
next
  case (Cons a kl)
  then obtain c cs' where cl: "cl = c # cs'" and "length cs' = Suc (length kl)"
    by (cases cl) auto
  with Cons.IH[of cs'] show ?case by simp
qed

lemma set_keys_lefts: "length cs = length ks \<Longrightarrow> set ks \<subseteq> set (lefts cs ks)"
  by (induction cs ks rule: list_induct2) auto

lemma set_keys_rights: "length ks = length cs \<Longrightarrow> set ks \<subseteq> set (rights ks cs)"
  by (induction ks cs rule: list_induct2) auto

lemma set_keys_inter: "length cs = Suc (length ks) \<Longrightarrow> set ks \<subseteq> set (inter cs ks)"
proof (induction ks arbitrary: cs)
  case Nil then show ?case by simp
next
  case (Cons a ks)
  then obtain c cs' where "cs = c # cs'" "length cs' = Suc (length ks)" by (cases cs) auto
  with Cons.IH[of cs'] show ?case by auto
qed

lemma set_keys_inorder: "bt t h x \<Longrightarrow> set (key x) \<subseteq> set (inorder x)"
proof (cases x)
  case (BNode ks cs lf)
  assume b: "bt t h x"
  show ?thesis
  proof (cases h)
    case 0
    with b BNode show ?thesis by (auto simp: bt_leaf)
  next
    case (Suc h')
    with b BNode have "\<not> lf" "length (map inorder cs) = Suc (length ks)" by (auto simp: bt_BNode)
    then show ?thesis using set_keys_inter[of "map inorder cs" ks] BNode by auto
  qed
qed


subsection \<open>One round of the descent of insert\<close>


subsection \<open>The loop of insert\<close>



subsection \<open>insert\<close>


subsection \<open>nodeDelete, mergeChildren and the rotation from the left\<close>

lemma nodeDelete_zip:
  assumes "length cl = length kl"
  shows "nodeDelete (BNode (kl @ s # kr) (cl @ a # b # cr) lf) (length kl) =
           (s, BNode (kl @ kr) (cl @ a # cr) lf)"
  using assms by (simp add: nodeDelete_def nth_append)

lemma nodeDelete_leaf:
  "nodeDelete (BNode (kl @ s # kr) [] lf) (length kl) = (s, BNode (kl @ kr) [] lf)"
  by (simp add: nodeDelete_def nth_append)

lemma mergeChildren_zip:
  assumes "length cl = length kl" and x: "x = BNode (kl @ s # kr) (cl @ a # b # cr) lf"
  shows "mergeChildren x (length kl) =
           (if kl @ kr = [] then NEW_ROOT else MODIFIED_NOT_ROOT,
            BNode (kl @ kr) (cl @ BNode (key a @ s # key b) (child a @ child b) (leaf a) # cr) lf,
            BNode (key a @ s # key b) (child a @ child b) (leaf a))"
proof -
  have a: "child x ! length kl = a" "child x ! Suc (length kl) = b"
    using assms(1) by (simp_all add: x nth_append)
  have d: "nodeDelete x (length kl) = (s, BNode (kl @ kr) (cl @ a # cr) lf)"
    unfolding x using assms(1) by (rule nodeDelete_zip)
  have e: "set_child (BNode (kl @ kr) (cl @ a # cr) lf) (length kl) m =
           BNode (kl @ kr) (cl @ m # cr) lf" for m
    using assms(1) by (simp add: set_child_def list_update_append)
  show ?thesis
    unfolding mergeChildren_def Let_def a d prod.case e by simp
qed

lemma inorder_merged:
  assumes "bt t h a" "bt t h b"
  shows "inorder (BNode (key a @ s # key b) (child a @ child b) (leaf a)) =
           inorder a @ s # inorder b"
proof (cases h)
  case 0
  with assms show ?thesis by (cases a; cases b) (auto simp: bt_leaf)
next
  case (Suc h')
  obtain ka ca fa where a: "a = BNode ka ca fa" by (cases a)
  obtain kb cb fb where b: "b = BNode kb cb fb" by (cases b)
  from assms Suc have "\<not> fa" "\<not> fb" "length ca = Suc (length ka)"
    by (auto simp: a b bt_BNode)
  then show ?thesis
    using inter_split[of "map inorder ca" ka "map inorder cb" s kb]
    by (simp add: a b)
qed

lemma bt_merged:
  assumes "bt t h a" "bt t h b" "size_of a + size_of b + 1 \<le> 2 * t - 1"
  shows "bt t h (BNode (key a @ s # key b) (child a @ child b) (leaf a))"
proof (cases h)
  case 0
  with assms show ?thesis by (cases a; cases b) (auto simp: bt_leaf)
next
  case (Suc h')
  with assms show ?thesis by (cases a; cases b) (auto simp: bt_BNode)
qed

text \<open>Rotation from the left sibling.\<close>

lemma fix_left_zip:
  assumes len: "length cl = length kl"
    and x: "x = BNode (kl @ s # kr) (cl @ L # K # cr) False"
    and bL: "bt t h L" and bK: "bt t h K"
    and szK: "size_of K < t" and szL: "t \<le> size_of L" and t: "1 \<le> t"
  shows "fixChildSize t lt x (Suc (length kl)) =
           (MODIFIED_NOT_ROOT,
            BNode (kl @ last (key L) # kr)
              (cl @ BNode (butlast (key L)) (butlast (child L)) (leaf L)
                  # BNode (take (nodeInsert_index lt (key K) s (size_of K)) (key K) @ s
                            # drop (nodeInsert_index lt (key K) s (size_of K)) (key K))
                          (if leaf K then [] else last (child L) # child K) (leaf K)
                  # cr) False)"
proof -
  obtain lk lc lf where L: "L = BNode lk lc lf" by (cases L)
  obtain kk kc kf where K: "K = BNode kk kc kf" by (cases K)
  define j where "j = nodeInsert_index lt kk s (length kk)"
  have jle: "j \<le> length kk" unfolding j_def by (rule nodeInsert_index_le)
  have lkne: "lk \<noteq> []" using szL t by (auto simp: L)
  have c: "child x ! Suc (length kl) = K" "child x ! length kl = L" "key x ! length kl = s"
    using len by (simp_all add: x nth_append)
  have ni: "nodeInsert lt K s =
              (BNode (take j kk @ s # drop j kk) (take (Suc j) kc @ drop j kc) kf, j)"
    by (simp add: nodeInsert_def K j_def Let_def)
  have sh: "(shift_children j (take (Suc j) kc @ drop j kc))[0 := child L ! size_of L] =
            (if kf then [] else last lc # kc)"
  proof (cases h)
    case 0
    with bK bL show ?thesis by (auto simp: K L bt_leaf)
  next
    case (Suc h')
    with bK bL have kf: "\<not> kf" and lkc: "length kc = Suc (length kk)"
      and llc: "length lc = Suc (length lk)"
      by (auto simp: K L bt_BNode)
    have jl: "j < length (take (Suc j) kc @ drop j kc)" using jle lkc by simp
    have "shift_children j (take (Suc j) kc @ drop j kc) = kc ! 0 # kc"
      unfolding shift_children_eq[OF jl] using jle lkc
      by (simp add: nth_append take_Suc_conv_app_nth min_def)
    moreover have "lc \<noteq> []" using llc by auto
    then have "lc ! length lk = last lc" using llc by (simp add: last_conv_nth)
    ultimately show ?thesis using kf by (simp add: L)
  qed
  have nd: "nodeDelete L (size_of L - 1) = (last lk, BNode (butlast lk) (butlast lc) lf)"
  proof (cases h)
    case 0
    with bL have "lc = []" by (auto simp: L bt_leaf)
    then show ?thesis using lkne
      by (simp add: nodeDelete_def L last_conv_nth butlast_conv_take)
  next
    case (Suc h')
    with bL have llc: "length lc = Suc (length lk)" by (auto simp: L bt_BNode)
    then show ?thesis using lkne
      by (simp add: nodeDelete_def L last_conv_nth butlast_conv_take)
  qed
  have upd: "(cl @ L # K # cr)[length kl := L', Suc (length kl) := K'] = cl @ L' # K' # cr"
    for L' K'
    using len by (simp add: list_update_append)
  have kupd: "(kl @ s # kr)[length kl := u] = kl @ u # kr" for u
    by (simp add: list_update_append)
  have cond: "Suc (length kl) \<noteq> 0 \<and> t \<le> size_of (child x ! (Suc (length kl) - 1))"
    using szL c by simp
  have "fixChildSize t lt x (Suc (length kl)) =
          (MODIFIED_NOT_ROOT,
           BNode ((key x)[length kl := last lk])
             ((child x)[length kl := BNode (butlast lk) (butlast lc) lf,
                Suc (length kl) := BNode (take j kk @ s # drop j kk)
                    ((shift_children j (take (Suc j) kc @ drop j kc))[0 := child L ! size_of L]) kf])
             (leaf x))"
    unfolding fixChildSize_def Let_def
    using szK cond c ni nd by simp
  also have "\<dots> = (MODIFIED_NOT_ROOT,
            BNode (kl @ last lk # kr)
              (cl @ BNode (butlast lk) (butlast lc) lf
                  # BNode (take j kk @ s # drop j kk) (if kf then [] else last lc # kc) kf
                  # cr) False)"
    unfolding sh by (simp add: x upd kupd)
  finally show ?thesis by (simp add: L K j_def)
qed

subsection \<open>The other branches of fixChildSize\<close>

text \<open>The view of an internal node around the key at index i.\<close>

lemma bt_zip_key:
  assumes "bt t (Suc h) x" "i < size_of x"
  obtains kl s kr cl a b cr where
    "x = BNode (kl @ s # kr) (cl @ a # b # cr) False"
    "length kl = i" "length cl = i" "length cr = length kr"
proof -
  obtain ks cs lf where x: "x = BNode ks cs lf" by (cases x)
  from assms have lf: "\<not> lf" and len: "length cs = Suc (length ks)" and i: "i < length ks"
    by (auto simp: x)
  have keq: "ks = take i ks @ ks ! i # drop (Suc i) ks"
    using i by (rule id_take_nth_drop)
  have ic: "i < length cs" "Suc i < length cs" using len i by simp_all
  have "cs = take i cs @ cs ! i # drop (Suc i) cs"
    using ic(1) by (rule id_take_nth_drop)
  also have "drop (Suc i) cs = cs ! Suc i # drop (Suc (Suc i)) cs"
    using ic(2) by (rule Cons_nth_drop_Suc[symmetric])
  finally have ceq: "cs = take i cs @ cs ! i # cs ! Suc i # drop (Suc (Suc i)) cs" .
  show ?thesis
  proof (rule that[of "take i ks" "ks ! i" "drop (Suc i) ks" "take i cs" "cs ! i" "cs ! Suc i"
        "drop (Suc (Suc i)) cs"])
    show "x = BNode (take i ks @ ks ! i # drop (Suc i) ks)
                (take i cs @ cs ! i # cs ! Suc i # drop (Suc (Suc i)) cs) False"
      unfolding x using lf keq ceq by simp
  qed (use len i in simp_all)
qed

text \<open>Rotation from the right sibling.\<close>

lemma fix_right_zip:
  assumes len: "length cl = length kl"
    and x: "x = BNode (kl @ s # kr) (cl @ K # R # cr) False"
    and bK: "bt t h K" and bR: "bt t h R"
    and szK: "size_of K < t" and szR: "t \<le> size_of R" and t: "1 \<le> t"
    and nl: "length kl \<noteq> 0 \<Longrightarrow> size_of (child x ! (length kl - 1)) < t"
    and j: "nodeInsert_index lt (key K) s (size_of K) = size_of K"
  shows "fixChildSize t lt x (length kl) =
           (MODIFIED_NOT_ROOT,
            BNode (kl @ hd (key R) # kr)
              (cl @ BNode (key K @ [s]) (if leaf K then [] else child K @ [hd (child R)]) (leaf K)
                  # BNode (tl (key R)) (tl (child R)) (leaf R)
                  # cr) False)"
proof -
  obtain rk rc rf where R: "R = BNode rk rc rf" by (cases R)
  obtain kk kc kf where K: "K = BNode kk kc kf" by (cases K)
  have rkne: "rk \<noteq> []" using szR t by (auto simp: R)
  have c: "child x ! length kl = K" "child x ! Suc (length kl) = R" "key x ! length kl = s"
    using len by (simp_all add: x nth_append)
  have sx: "length kl \<noteq> size_of x" by (simp add: x)
  have ni: "fst (nodeInsert lt K s) = BNode (kk @ [s]) (take (Suc (length kk)) kc @ drop (length kk) kc) kf"
    using j by (simp add: nodeInsert_def K Let_def)
  have k2: "set_child (BNode (kk @ [s]) (take (Suc (length kk)) kc @ drop (length kk) kc) kf)
              (size_of (BNode (kk @ [s]) (take (Suc (length kk)) kc @ drop (length kk) kc) kf))
              (child R ! 0) =
            BNode (kk @ [s]) (if kf then [] else kc @ [hd rc]) kf"
  proof (cases h)
    case 0
    with bK show ?thesis by (auto simp: K bt_leaf set_child_def)
  next
    case (Suc h')
    with bK bR have kf: "\<not> kf" and lkc: "length kc = Suc (length kk)"
      and lrc: "length rc = Suc (length rk)"
      by (auto simp: K R bt_BNode)
    have "rc \<noteq> []" using lrc by auto
    then have "rc ! 0 = hd rc" by (simp add: hd_conv_nth)
    moreover obtain kc' c' where "kc = kc' @ [c']" "length kc' = length kk"
      using lkc by (cases kc rule: rev_cases) auto
    ultimately show ?thesis using kf
      by (simp add: set_child_def R list_update_append)
  qed
  have nd: "nodeDelete (set_child R 0 (child R ! 1)) 0 = (hd rk, BNode (tl rk) (tl rc) rf)"
  proof (cases h)
    case 0
    with bR have "rc = []" by (auto simp: R bt_leaf)
    then show ?thesis using rkne
      by (simp add: nodeDelete_def R set_child_def hd_conv_nth drop_Suc)
  next
    case (Suc h')
    with bR have lrc: "length rc = Suc (length rk)" by (auto simp: R bt_BNode)
    then obtain r0 r1 rc' where "rc = r0 # r1 # rc'" using rkne
      by (cases rc; cases "tl rc") auto
    then show ?thesis using rkne
      by (simp add: nodeDelete_def R set_child_def hd_conv_nth drop_Suc)
  qed
  have upd: "(cl @ K # R # cr)[length kl := K', Suc (length kl) := R'] = cl @ K' # R' # cr"
    for K' R'
    using len by (simp add: list_update_append)
  have kupd: "(kl @ s # kr)[length kl := u] = kl @ u # kr" for u
    by (simp add: list_update_append)
  have e1: "(size_of (child x ! length kl) < t) = True" using szK c by simp
  have e2: "(length kl \<noteq> 0 \<and> t \<le> size_of (child x ! (length kl - 1))) = False"
    using nl by auto
  have e3: "(length kl \<noteq> size_of x \<and> t \<le> size_of (child x ! Suc (length kl))) = True"
    using sx szR c by simp
  have "fixChildSize t lt x (length kl) =
          (MODIFIED_NOT_ROOT,
           BNode ((key x)[length kl := hd rk])
             ((child x)[length kl := BNode (kk @ [s]) (if kf then [] else kc @ [hd rc]) kf,
                Suc (length kl) := BNode (tl rk) (tl rc) rf])
             (leaf x))"
    unfolding fixChildSize_def Let_def e1 e2 e3 if_True if_False
    using c nd k2 by (simp add: ni)
  also have "\<dots> = (MODIFIED_NOT_ROOT,
            BNode (kl @ hd rk # kr)
              (cl @ BNode (kk @ [s]) (if kf then [] else kc @ [hd rc]) kf
                  # BNode (tl rk) (tl rc) rf # cr) False)"
    by (simp add: x upd kupd)
  finally show ?thesis by (simp add: R K)
qed

text \<open>Merging with the left sibling, and with the right sibling at index 0.\<close>

lemma fix_merge_left_zip:
  assumes len: "length cl = length kl"
    and x: "x = BNode (kl @ s # kr) (cl @ a # b # cr) False"
    and szb: "size_of b < t" and sza: "size_of a < t"
    and nr: "cr \<noteq> [] \<Longrightarrow> size_of (hd cr) < t" and lr: "length cr = length kr"
  shows "fixChildSize t lt x (Suc (length kl)) =
           (if kl @ kr = [] then (NEW_ROOT, BNode (key a @ s # key b) (child a @ child b) (leaf a))
            else (MODIFIED_NOT_ROOT,
                  BNode (kl @ kr)
                    (cl @ BNode (key a @ s # key b) (child a @ child b) (leaf a) # cr) False))"
proof -
  have c: "child x ! Suc (length kl) = b" "child x ! length kl = a"
    using len by (simp_all add: x nth_append)
  have r: "(Suc (length kl) \<noteq> size_of x \<and> t \<le> size_of (child x ! Suc (Suc (length kl)))) = False"
    using nr lr len by (cases cr) (auto simp: x nth_append)
  have m: "mergeChildren x (length kl) =
           (if kl @ kr = [] then NEW_ROOT else MODIFIED_NOT_ROOT,
            BNode (kl @ kr) (cl @ BNode (key a @ s # key b) (child a @ child b) (leaf a) # cr) False,
            BNode (key a @ s # key b) (child a @ child b) (leaf a))"
    using len x by (rule mergeChildren_zip)
  have "fixChildSize t lt x (Suc (length kl)) =
          (case mergeChildren x (length kl) of (code, parent', leftKid') \<Rightarrow>
             (code, if code = NEW_ROOT then leftKid' else parent'))"
    unfolding fixChildSize_def Let_def
    using szb sza by (simp add: c r)
  then show ?thesis
    unfolding m by (simp add: NEW_ROOT_def MODIFIED_NOT_ROOT_def)
qed

lemma fix_merge_right_zip:
  assumes x: "x = BNode (s # kr) (a # b # cr) False"
    and sza: "size_of a < t" and szb: "size_of b < t"
  shows "fixChildSize t lt x 0 =
           (if kr = [] then (NEW_ROOT, BNode (key a @ s # key b) (child a @ child b) (leaf a))
            else (MODIFIED_NOT_ROOT,
                  BNode kr (BNode (key a @ s # key b) (child a @ child b) (leaf a) # cr) False))"
proof -
  have c: "child x ! 0 = a" "child x ! Suc 0 = b" "(0 \<noteq> size_of x) = True"
    by (simp_all add: x)
  have m: "mergeChildren x 0 =
           (if kr = [] then NEW_ROOT else MODIFIED_NOT_ROOT,
            BNode kr (BNode (key a @ s # key b) (child a @ child b) (leaf a) # cr) False,
            BNode (key a @ s # key b) (child a @ child b) (leaf a))"
    using mergeChildren_zip[where kl = "[]" and cl = "[]" and x = x and s = s and kr = kr
        and a = a and b = b and cr = cr and lf = False] x
    by simp
  have "fixChildSize t lt x 0 =
          (case mergeChildren x 0 of (code, parent', leftKid') \<Rightarrow>
             (code, if code = NEW_ROOT then leftKid' else parent'))"
    unfolding fixChildSize_def Let_def
    using sza szb by (simp add: c)
  then show ?thesis
    unfolding m by (simp add: NEW_ROOT_def MODIFIED_NOT_ROOT_def)
qed

lemma fix_none:
  "t \<le> size_of (child x ! i) \<Longrightarrow> fixChildSize t lt x i = (NOT_MODIFIED, x)"
  by (simp add: fixChildSize_def Let_def)

subsection \<open>Traversal and shape after a rotation\<close>

lemma inorder_zip_key:
  "length cl = length kl \<Longrightarrow> length cr = length kr \<Longrightarrow>
   inorder (BNode (kl @ s # kr) (cl @ a # b # cr) False) =
     lefts (map inorder cl) kl @ inorder a @ s # inorder b @ rights kr (map inorder cr)"
  using inorder_zip[of cl kl "b # cr" "s # kr" a] by simp

lemma inorder_rot_left:
  assumes bL: "bt t h L" and bK: "bt t h K" and ne: "key L \<noteq> []"
  shows "inorder L @ s # inorder K =
           inorder (BNode (butlast (key L)) (butlast (child L)) (leaf L)) @ last (key L)
             # inorder (BNode (s # key K) (if leaf K then [] else last (child L) # child K) (leaf K))"
proof -
  obtain lk lc lf where L: "L = BNode lk lc lf" by (cases L)
  obtain kk kc kf where K: "K = BNode kk kc kf" by (cases K)
  from ne obtain lk' u where lk: "lk = lk' @ [u]" by (cases lk rule: rev_cases) (auto simp: L)
  show ?thesis
  proof (cases h)
    case 0
    with bL bK show ?thesis by (auto simp: L K lk bt_leaf)
  next
    case (Suc h')
    with bL bK have f: "\<not> lf" "\<not> kf" and llc: "length lc = Suc (length lk)"
      and lkc: "length kc = Suc (length kk)"
      by (auto simp: L K bt_BNode)
    from llc obtain lc' w where lc: "lc = lc' @ [w]" and llc': "length lc' = Suc (length lk')"
      by (cases lc rule: rev_cases) (auto simp: lk)
    obtain c0 kc' where kc: "kc = c0 # kc'" using lkc by (cases kc) auto
    have "inter (map inorder lc' @ [inorder w]) (lk' @ u # []) =
          inter (map inorder lc') lk' @ u # inter [inorder w] []"
      using llc' by (intro inter_split) simp
    then show ?thesis using f by (simp add: L K lk lc kc)
  qed
qed

lemma inorder_rot_right:
  assumes bK: "bt t h K" and bR: "bt t h R" and ne: "key R \<noteq> []"
  shows "inorder K @ s # inorder R =
           inorder (BNode (key K @ [s]) (if leaf K then [] else child K @ [hd (child R)]) (leaf K))
             @ hd (key R) # inorder (BNode (tl (key R)) (tl (child R)) (leaf R))"
proof -
  obtain rk rc rf where R: "R = BNode rk rc rf" by (cases R)
  obtain kk kc kf where K: "K = BNode kk kc kf" by (cases K)
  from ne obtain u rk' where rk: "rk = u # rk'" by (cases rk) (auto simp: R)
  show ?thesis
  proof (cases h)
    case 0
    with bR bK show ?thesis by (auto simp: R K rk bt_leaf)
  next
    case (Suc h')
    with bR bK have f: "\<not> rf" "\<not> kf" and lrc: "length rc = Suc (length rk)"
      and lkc: "length kc = Suc (length kk)"
      by (auto simp: R K bt_BNode)
    from lrc obtain w rc' where rc: "rc = w # rc'" by (cases rc) auto
    from lrc rc rk obtain w' rc'' where rc': "rc' = w' # rc''" by (cases rc') auto
    have "inter (map inorder kc @ [inorder w]) (kk @ s # []) =
          inter (map inorder kc) kk @ s # inter [inorder w] []"
      using lkc by (intro inter_split) simp
    then show ?thesis using f by (simp add: R K rk rc rc')
  qed
qed

lemma bt_rot_left:
  assumes bL: "bt t h L" and bK: "bt t h K" and szL: "t \<le> size_of L" and szK: "size_of K < t"
    and t: "1 \<le> t"
  shows "bt t h (BNode (butlast (key L)) (butlast (child L)) (leaf L))"
    and "bt t h (BNode (s # key K) (if leaf K then [] else last (child L) # child K) (leaf K))"
proof -
  obtain lk lc lf where L: "L = BNode lk lc lf" by (cases L)
  obtain kk kc kf where K: "K = BNode kk kc kf" by (cases K)
  show "bt t h (BNode (butlast (key L)) (butlast (child L)) (leaf L))"
  proof (cases h)
    case 0
    with bL show ?thesis by (auto simp: L bt_leaf)
  next
    case (Suc h')
    with bL szL t show ?thesis by (auto simp: L bt_BNode dest: in_set_butlastD)
  qed
  show "bt t h (BNode (s # key K) (if leaf K then [] else last (child L) # child K) (leaf K))"
  proof (cases h)
    case 0
    with bK szK show ?thesis by (auto simp: K bt_leaf)
  next
    case (Suc h')
    with bL have "lc \<noteq> []" by (auto simp: L bt_BNode)
    then have "last lc \<in> set lc" by simp
    with Suc bL bK szK show ?thesis by (auto simp: L K bt_BNode)
  qed
qed

lemma bt_rot_right:
  assumes bK: "bt t h K" and bR: "bt t h R" and szR: "t \<le> size_of R" and szK: "size_of K < t"
    and t: "1 \<le> t"
  shows "bt t h (BNode (key K @ [s]) (if leaf K then [] else child K @ [hd (child R)]) (leaf K))"
    and "bt t h (BNode (tl (key R)) (tl (child R)) (leaf R))"
proof -
  obtain rk rc rf where R: "R = BNode rk rc rf" by (cases R)
  obtain kk kc kf where K: "K = BNode kk kc kf" by (cases K)
  show "bt t h (BNode (key K @ [s]) (if leaf K then [] else child K @ [hd (child R)]) (leaf K))"
  proof (cases h)
    case 0
    with bK szK show ?thesis by (auto simp: K bt_leaf)
  next
    case (Suc h')
    with bR have "rc \<noteq> []" by (auto simp: R bt_BNode)
    then have "hd rc \<in> set rc" by simp
    with Suc bR bK szK show ?thesis by (auto simp: R K bt_BNode)
  qed
  show "bt t h (BNode (tl (key R)) (tl (child R)) (leaf R))"
  proof (cases h)
    case 0
    with bR show ?thesis by (auto simp: R bt_leaf)
  next
    case (Suc h')
    with bR szR t show ?thesis by (cases rc) (auto simp: R bt_BNode)
  qed
qed

subsection \<open>findIndex on a list of keys\<close>

lemma findIndex_keys_append:
  "findIndex_keys lt (kl @ kr) k =
     (if \<forall>y \<in> set kl. lt y k then length kl + findIndex_keys lt kr k
      else findIndex_keys lt kl k)"
  by (induction kl) auto

lemma findIndex_keys_less: "\<not> (\<forall>y \<in> set kl. lt y k) \<Longrightarrow> findIndex_keys lt kl k < length kl"
  by (induction kl) auto

lemma findIndex_keys_all: "\<forall>y \<in> set kl. lt y k \<Longrightarrow> findIndex_keys lt kl k = length kl"
  by (induction kl) auto

lemma findIndex_keys_mid:
  "findIndex_keys lt (kl @ kr) k = length kl \<longleftrightarrow>
     (\<forall>y \<in> set kl. lt y k) \<and> (kr \<noteq> [] \<longrightarrow> \<not> lt (hd kr) k)"
proof (cases "\<forall>y \<in> set kl. lt y k")
  case True
  then show ?thesis by (cases kr) (auto simp: findIndex_keys_append findIndex_keys_all)
next
  case False
  then show ?thesis using findIndex_keys_less[of kl lt k] by (auto simp: findIndex_keys_append)
qed

lemma findIndex_keys_mid_Suc:
  "findIndex_keys lt (kl @ s # kr) k = Suc (length kl) \<longleftrightarrow>
     (\<forall>y \<in> set kl. lt y k) \<and> lt s k \<and> (kr \<noteq> [] \<longrightarrow> \<not> lt (hd kr) k)"
  using findIndex_keys_mid[of lt "kl @ [s]" kr k] by auto

subsection \<open>fixChildSize keeps the traversal and the shape\<close>

lemma fix_ok:
  assumes so: "strict_order lt" and t: "2 \<le> t" and b: "bt t (Suc h) x"
    and i: "i \<le> size_of x" and ne: "1 \<le> size_of x"
    and srt: "sorted_wrt lt (inorder x)"
  shows "\<exists>code x'. fixChildSize t lt x i = (code, x') \<and> inorder x' = inorder x \<and>
      (code = NEW_ROOT \<longrightarrow> size_of x = 1 \<and> bt t h x' \<and> t \<le> size_of x') \<and>
      (code \<noteq> NEW_ROOT \<longrightarrow>
         bt t (Suc h) x' \<and> size_of x \<le> Suc (size_of x') \<and> size_of x' \<le> size_of x \<and>
         1 \<le> size_of x' \<and>
         (\<exists>i'. i' \<le> size_of x' \<and> t \<le> size_of (child x' ! i') \<and>
            (i = size_of x \<longrightarrow> i' = size_of x') \<and> (i = 0 \<longrightarrow> i' = 0) \<and>
            (\<forall>k. findIndex lt x k = i \<longrightarrow> (i < size_of x \<longrightarrow> lt k (key x ! i)) \<longrightarrow>
                 findIndex lt x' k = i' \<and> (i' < size_of x' \<longrightarrow> lt k (key x' ! i')))))"
proof -
  have tr: "lt u v \<Longrightarrow> lt v w \<Longrightarrow> lt u w" for u v w using strict_orderD(2)[OF so] .
  have asym: "lt u v \<Longrightarrow> \<not> lt v u" for u v using strict_orderD(3)[OF so] .
  have t1: "1 \<le> t" using t by simp
  have nr: "NOT_MODIFIED \<noteq> NEW_ROOT" "MODIFIED_NOT_ROOT \<noteq> NEW_ROOT"
    by (simp_all add: NOT_MODIFIED_def NEW_ROOT_def MODIFIED_NOT_ROOT_def)
  have kid_all: "t - 1 \<le> size_of (child x ! n) \<and> bt t h (child x ! n)" if "n \<le> size_of x" for n
    using b that by (cases x) (auto simp: bt_BNode)
  show ?thesis
  proof (cases "t \<le> size_of (child x ! i)")
    case True
    have "fixChildSize t lt x i = (NOT_MODIFIED, x)" using True by (rule fix_none)
    then show ?thesis using nr(1) b ne i True by auto
  next
    case small: False
    show ?thesis
    proof (cases "i \<noteq> 0 \<and> t \<le> size_of (child x ! (i - 1))")
      case True
      then have i1: "i - 1 < size_of x" and ieq: "i = Suc (i - 1)" using i by auto
      from bt_zip_key[OF b i1] obtain kl s kr cl L K cr where
        x: "x = BNode (kl @ s # kr) (cl @ L # K # cr) False"
        and l: "length kl = i - 1" "length cl = i - 1" "length cr = length kr"
        by metis
      have len: "length cl = length kl" using l by simp
      have iS: "i = Suc (length kl)" using ieq l by simp
      have cL: "child x ! (i - 1) = L" and cK: "child x ! i = K"
        using l iS by (simp_all add: x nth_append)
      have kids: "\<forall>c \<in> set (cl @ L # K # cr). t - 1 \<le> size_of c \<and> bt t h c"
        and lenx: "length kl + Suc (length kr) \<le> 2 * t - 1"
        using b unfolding x bt_BNode by auto
      have bL: "bt t h L" and bK: "bt t h K" and szK1: "t - 1 \<le> size_of K" using kids by auto
      have szL: "t \<le> size_of L" using True cL by simp
      have szK: "size_of K < t" using small cK by simp
      have io: "inorder x = lefts (map inorder cl) kl @ inorder L @ s # inorder K
                  @ rights kr (map inorder cr)"
        unfolding x using len l(3) by (rule inorder_zip_key)
      have sL: "\<forall>u \<in> set (inorder L). lt u s" and sK: "\<forall>v \<in> set (inorder K). lt s v"
        using srt unfolding io sorted_wrt_append by auto
      have kK: "set (key K) \<subseteq> set (inorder K)" using bK by (rule set_keys_inorder)
      have kL: "set (key L) \<subseteq> set (inorder L)" using bL by (rule set_keys_inorder)
      have Lne: "key L \<noteq> []" using szL t1 by (auto simp: size_of_def)
      have j0: "nodeInsert_index lt (key K) s (size_of K) = 0"
      proof (rule nodeInsert_index_eq)
        show "\<forall>n. 0 \<le> n \<and> n < size_of K \<longrightarrow> lt s (key K ! n)"
        proof (intro allI impI)
          fix n assume "0 \<le> n \<and> n < size_of K"
          then have "key K ! n \<in> set (key K)" by (simp add: size_of_def)
          then show "lt s (key K ! n)" using sK kK by blast
        qed
      qed simp_all
      define L' where "L' = BNode (butlast (key L)) (butlast (child L)) (leaf L)"
      define K' where "K' = BNode (s # key K) (if leaf K then [] else last (child L) # child K) (leaf K)"
      define u where "u = last (key L)"
      define x' where "x' = BNode (kl @ u # kr) (cl @ L' # K' # cr) False"
      have fx: "fixChildSize t lt x i = (MODIFIED_NOT_ROOT, x')"
        using fix_left_zip[where lt = lt and t = t and h = h and x = x and kl = kl and s = s
            and kr = kr and cl = cl and L = L and K = K and cr = cr]
          len x bL bK szK szL t1
        by (simp add: j0 iS x'_def L'_def K'_def u_def)
      have uL: "u \<in> set (inorder L)" using kL Lne unfolding u_def by auto
      have io': "inorder x' = inorder x"
      proof -
        have "inorder x' = lefts (map inorder cl) kl @ inorder L' @ u # inorder K'
                  @ rights kr (map inorder cr)"
          unfolding x'_def using len l(3) by (rule inorder_zip_key)
        moreover have "inorder L @ s # inorder K = inorder L' @ u # inorder K'"
          unfolding L'_def K'_def u_def using bL bK Lne by (rule inorder_rot_left)
        ultimately show ?thesis by (simp add: io)
      qed
      have bL': "bt t h L'" and bK': "bt t h K'"
        unfolding L'_def K'_def using bt_rot_left[OF bL bK szL szK t1] by simp_all
      have szL': "t - 1 \<le> size_of L'" using szL by (simp add: L'_def size_of_def)
      have szK': "size_of K' = Suc (size_of K)" by (simp add: K'_def size_of_def)
      have bx': "bt t (Suc h) x'"
        unfolding x'_def bt_BNode using kids lenx len l(3) bL' bK' szL' szK' szK by auto
      have cK': "child x' ! i = K'" using len iS by (simp add: x'_def nth_append)
      have fi: "findIndex lt x' k = i" if "findIndex lt x k = i" for k
      proof -
        from that have "(\<forall>y \<in> set kl. lt y k) \<and> lt s k \<and> (kr \<noteq> [] \<longrightarrow> \<not> lt (hd kr) k)"
          unfolding findIndex_def iS x by (simp add: findIndex_keys_mid_Suc)
        moreover have "lt u s" using sL uL by blast
        ultimately have "(\<forall>y \<in> set kl. lt y k) \<and> lt u k \<and> (kr \<noteq> [] \<longrightarrow> \<not> lt (hd kr) k)"
          using tr by blast
        then show ?thesis
          unfolding findIndex_def iS x'_def by (simp add: findIndex_keys_mid_Suc)
      qed
      have ki: "key x' ! i = key x ! i" "size_of x' = size_of x"
        using iS by (simp_all add: x x'_def nth_append)
      have "i \<le> size_of x' \<and> t \<le> size_of (child x' ! i) \<and>
            (i = size_of x \<longrightarrow> i = size_of x') \<and> (i = 0 \<longrightarrow> i = 0) \<and>
            (\<forall>k. findIndex lt x k = i \<longrightarrow> (i < size_of x \<longrightarrow> lt k (key x ! i)) \<longrightarrow>
                 findIndex lt x' k = i \<and> (i < size_of x' \<longrightarrow> lt k (key x' ! i)))"
        using i cK' szK' szK1 fi ki by auto
      then show ?thesis using fx io' bx' nr(2) ki(2) ne by (intro exI[of _ MODIFIED_NOT_ROOT] exI[of _ x']) auto
    next
      case noleft: False
      show ?thesis
      proof (cases "i \<noteq> size_of x \<and> t \<le> size_of (child x ! Suc i)")
        case True
        then have i1: "i < size_of x" using i by auto
        from bt_zip_key[OF b i1] obtain kl s kr cl K R cr where
          x: "x = BNode (kl @ s # kr) (cl @ K # R # cr) False"
          and l: "length kl = i" "length cl = i" "length cr = length kr"
          by metis
        have len: "length cl = length kl" using l by simp
        have cK: "child x ! i = K" and cR: "child x ! Suc i = R" and ks: "key x ! i = s"
          using l by (simp_all add: x nth_append)
        have kids: "\<forall>c \<in> set (cl @ K # R # cr). t - 1 \<le> size_of c \<and> bt t h c"
          and lenx: "length kl + Suc (length kr) \<le> 2 * t - 1"
          using b unfolding x bt_BNode by auto
        have bK: "bt t h K" and bR: "bt t h R" and szK1: "t - 1 \<le> size_of K" using kids by auto
        have szR: "t \<le> size_of R" using True cR by simp
        have szK: "size_of K < t" using small cK by simp
        have io: "inorder x = lefts (map inorder cl) kl @ inorder K @ s # inorder R
                    @ rights kr (map inorder cr)"
          unfolding x using len l(3) by (rule inorder_zip_key)
        have sK: "\<forall>u \<in> set (inorder K). lt u s" and sR: "\<forall>v \<in> set (inorder R). lt s v"
          using srt unfolding io sorted_wrt_append by auto
        have kK: "set (key K) \<subseteq> set (inorder K)" using bK by (rule set_keys_inorder)
        have kR: "set (key R) \<subseteq> set (inorder R)" using bR by (rule set_keys_inorder)
        have Rne: "key R \<noteq> []" using szR t1 by (auto simp: size_of_def)
        have jn: "nodeInsert_index lt (key K) s (size_of K) = size_of K"
        proof (rule nodeInsert_index_eq)
          show "\<not> lt s (key K ! (size_of K - 1))" if "0 < size_of K"
          proof -
            have "key K ! (size_of K - 1) \<in> set (key K)" using that by (simp add: size_of_def)
            then have "lt (key K ! (size_of K - 1)) s" using sK kK by blast
            then show ?thesis by (rule asym)
          qed
          show "\<forall>n. size_of K \<le> n \<and> n < size_of K \<longrightarrow> lt s (key K ! n)" by auto
        qed simp_all
        have nl: "size_of (child x ! (length kl - 1)) < t" if "length kl \<noteq> 0"
          using noleft that l by auto
        define K' where "K' = BNode (key K @ [s]) (if leaf K then [] else child K @ [hd (child R)]) (leaf K)"
        define R' where "R' = BNode (tl (key R)) (tl (child R)) (leaf R)"
        define u where "u = hd (key R)"
        define x' where "x' = BNode (kl @ u # kr) (cl @ K' # R' # cr) False"
        have fx: "fixChildSize t lt x i = (MODIFIED_NOT_ROOT, x')"
          using fix_right_zip[where lt = lt and t = t and h = h and x = x and kl = kl and s = s
              and kr = kr and cl = cl and R = R and K = K and cr = cr]
            len x bR bK szK szR t1 nl jn l(1)
          by (simp add: x'_def R'_def K'_def u_def)
        have uR: "u \<in> set (inorder R)" using kR Rne unfolding u_def by auto
        have io': "inorder x' = inorder x"
        proof -
          have "inorder x' = lefts (map inorder cl) kl @ inorder K' @ u # inorder R'
                    @ rights kr (map inorder cr)"
            unfolding x'_def using len l(3) by (rule inorder_zip_key)
          moreover have "inorder K @ s # inorder R = inorder K' @ u # inorder R'"
            unfolding R'_def K'_def u_def using bK bR Rne by (rule inorder_rot_right)
          ultimately show ?thesis by (simp add: io)
        qed
        have bK': "bt t h K'" and bR': "bt t h R'"
          unfolding R'_def K'_def using bt_rot_right[OF bK bR szR szK t1] by simp_all
        have szR': "t - 1 \<le> size_of R'" using szR by (simp add: R'_def size_of_def)
        have szK': "size_of K' = Suc (size_of K)" by (simp add: K'_def size_of_def)
        have bx': "bt t (Suc h) x'"
          unfolding x'_def bt_BNode using kids lenx len l(3) bR' bK' szR' szK' szK by auto
        have cK': "child x' ! i = K'" using l by (simp add: x'_def nth_append)
        have fi: "findIndex lt x' k = i" if "findIndex lt x k = i" "lt k (key x ! i)" for k
        proof -
          from that(1) have "\<forall>y \<in> set kl. lt y k"
            unfolding findIndex_def x using l(1) findIndex_keys_mid[of lt kl "s # kr" k] by simp
          moreover have "lt s u" using sR uR by blast
          then have "\<not> lt u k" using that(2) ks tr asym by blast
          ultimately show ?thesis
            unfolding findIndex_def x'_def using l(1) findIndex_keys_mid[of lt kl "u # kr" k]
            by simp
        qed
        have ki: "key x' ! i = u" "size_of x' = size_of x"
          using l(1) by (simp_all add: x x'_def nth_append)
        have ku: "lt k u" if "lt k (key x ! i)" for k
        proof -
          have "lt s u" using sR uR by blast
          then show ?thesis using that ks tr by blast
        qed
        have "i \<le> size_of x' \<and> t \<le> size_of (child x' ! i) \<and>
              (i = size_of x \<longrightarrow> i = size_of x') \<and> (i = 0 \<longrightarrow> i = 0) \<and>
              (\<forall>k. findIndex lt x k = i \<longrightarrow> (i < size_of x \<longrightarrow> lt k (key x ! i)) \<longrightarrow>
                   findIndex lt x' k = i \<and> (i < size_of x' \<longrightarrow> lt k (key x' ! i)))"
          using i i1 cK' szK' szK1 fi ki ku by auto
        then show ?thesis using fx io' bx' nr(2) ki(2) ne by (intro exI[of _ MODIFIED_NOT_ROOT] exI[of _ x']) auto
      next
        case noright: False
        show ?thesis
        proof (cases "i = 0")
          case False
          then have i1: "i - 1 < size_of x" and ieq: "i = Suc (i - 1)" using i by auto
          from bt_zip_key[OF b i1] obtain kl s kr cl A B cr where
            x: "x = BNode (kl @ s # kr) (cl @ A # B # cr) False"
            and l: "length kl = i - 1" "length cl = i - 1" "length cr = length kr"
            by metis
          have len: "length cl = length kl" using l by simp
          have iS: "i = Suc (length kl)" using ieq l by simp
          have cA: "child x ! (i - 1) = A" and cB: "child x ! i = B"
            using l iS by (simp_all add: x nth_append)
          have kids: "\<forall>c \<in> set (cl @ A # B # cr). t - 1 \<le> size_of c \<and> bt t h c"
            and lenx: "length kl + Suc (length kr) \<le> 2 * t - 1"
            using b unfolding x bt_BNode by auto
          have bA: "bt t h A" and bB: "bt t h B" and szA1: "t - 1 \<le> size_of A"
            and szB1: "t - 1 \<le> size_of B" using kids by auto
          have szA: "size_of A < t" using noleft False cA by simp
          have szB: "size_of B < t" using small cB by simp
          have nrt: "size_of (hd cr) < t" if "cr \<noteq> []"
          proof -
            from that obtain c cr' where cr: "cr = c # cr'" by (cases cr) auto
            have "i \<noteq> size_of x" using l cr iS by (auto simp: x)
            moreover have "child x ! Suc i = c" using len iS cr by (simp add: x nth_append)
            ultimately show ?thesis using noright cr by simp
          qed
          define M where "M = BNode (key A @ s # key B) (child A @ child B) (leaf A)"
          have fx: "fixChildSize t lt x i =
                   (if kl @ kr = [] then (NEW_ROOT, M)
                    else (MODIFIED_NOT_ROOT, BNode (kl @ kr) (cl @ M # cr) False))"
            unfolding iS M_def using len x szB szA nrt l(3) by (rule fix_merge_left_zip)
          have ioM: "inorder M = inorder A @ s # inorder B"
            unfolding M_def using bA bB by (rule inorder_merged)
          have bM: "bt t h M"
            unfolding M_def using bA bB szA szB by (intro bt_merged) auto
          have szM: "t \<le> size_of M" using szA1 szB1 t by (simp add: M_def size_of_def)
          have io: "inorder x = lefts (map inorder cl) kl @ inorder A @ s # inorder B
                      @ rights kr (map inorder cr)"
            unfolding x using len l(3) by (rule inorder_zip_key)
          show ?thesis
          proof (cases "kl @ kr = []")
            case True
            then have e: "kl = []" "kr = []" "cl = []" "cr = []" using l by auto
            have "fixChildSize t lt x i = (NEW_ROOT, M)" unfolding fx using True by simp
            moreover have "inorder M = inorder x" using ioM io e by simp
            moreover have "size_of x = 1" using e by (simp add: x)
            ultimately show ?thesis using bM szM by auto
          next
            case nonempty: False
            define x' where "x' = BNode (kl @ kr) (cl @ M # cr) False"
            have fx': "fixChildSize t lt x i = (MODIFIED_NOT_ROOT, x')"
              unfolding fx x'_def using nonempty by auto
            have io': "inorder x' = inorder x"
            proof -
              have "inorder x' = lefts (map inorder cl) kl @ inorder M @ rights kr (map inorder cr)"
                unfolding x'_def using len l(3) by (rule inorder_zip)
              then show ?thesis by (simp add: io ioM)
            qed
            have bx': "bt t (Suc h) x'"
              unfolding x'_def bt_BNode using kids lenx len l(3) bM szM by auto
            have cM: "child x' ! length kl = M" using len by (simp add: x'_def nth_append)
            have fi: "findIndex lt x' k = length kl" if "findIndex lt x k = i" for k
            proof -
              from that have "(\<forall>y \<in> set kl. lt y k) \<and> lt s k \<and> (kr \<noteq> [] \<longrightarrow> \<not> lt (hd kr) k)"
                unfolding findIndex_def iS x by (simp add: findIndex_keys_mid_Suc)
              then show ?thesis
                unfolding findIndex_def x'_def by (simp add: findIndex_keys_mid)
            qed
            have ki: "key x' ! length kl = key x ! i" "length kl < size_of x' \<longleftrightarrow> i < size_of x"
              using iS by (auto simp: x x'_def nth_append)
            have "length kl \<le> size_of x' \<and> t \<le> size_of (child x' ! length kl) \<and>
                  (i = size_of x \<longrightarrow> length kl = size_of x') \<and> (i = 0 \<longrightarrow> length kl = 0) \<and>
                  (\<forall>k. findIndex lt x k = i \<longrightarrow> (i < size_of x \<longrightarrow> lt k (key x ! i)) \<longrightarrow>
                       findIndex lt x' k = length kl \<and>
                       (length kl < size_of x' \<longrightarrow> lt k (key x' ! length kl)))"
              using cM szM fi iS ki by (auto simp: x x'_def)
            moreover have "size_of x \<le> Suc (size_of x')" "size_of x' \<le> size_of x" "1 \<le> size_of x'"
              using nonempty by (cases kl; cases kr; simp add: x x'_def)+
            ultimately show ?thesis using fx' io' bx' nr(2) by blast
          qed
        next
          case i0: True
          have i1: "0 < size_of x" using ne by simp
          from bt_zip_key[OF b i1] obtain s kr A B cr where
            x: "x = BNode (s # kr) (A # B # cr) False" and l: "length cr = length kr"
            by (metis append_Nil length_0_conv)
          have cA: "child x ! 0 = A" and cB: "child x ! Suc 0 = B" and ks: "key x ! 0 = s"
            by (simp_all add: x)
          have kids: "\<forall>c \<in> set (A # B # cr). t - 1 \<le> size_of c \<and> bt t h c"
            and lenx: "Suc (length kr) \<le> 2 * t - 1"
            using b unfolding x bt_BNode by auto
          have bA: "bt t h A" and bB: "bt t h B" and szA1: "t - 1 \<le> size_of A"
            and szB1: "t - 1 \<le> size_of B" using kids by auto
          have szA: "size_of A < t" using small cA i0 by simp
          have szB: "size_of B < t" using noright i0 cB i1 by simp
          define M where "M = BNode (key A @ s # key B) (child A @ child B) (leaf A)"
          have fx: "fixChildSize t lt x i =
                   (if kr = [] then (NEW_ROOT, M)
                    else (MODIFIED_NOT_ROOT, BNode kr (M # cr) False))"
            unfolding i0 M_def using x szA szB by (rule fix_merge_right_zip)
          have ioM: "inorder M = inorder A @ s # inorder B"
            unfolding M_def using bA bB by (rule inorder_merged)
          have bM: "bt t h M"
            unfolding M_def using bA bB szA szB by (intro bt_merged) auto
          have szM: "t \<le> size_of M" using szA1 szB1 t by (simp add: M_def size_of_def)
          have io: "inorder x = inorder A @ s # inorder B @ rights kr (map inorder cr)"
            using inorder_zip_key[of "[]" "[]" cr kr s A B] l by (simp add: x)
          show ?thesis
          proof (cases "kr = []")
            case True
            then have e: "cr = []" using l by auto
            have "fixChildSize t lt x i = (NEW_ROOT, M)" unfolding fx using True by simp
            moreover have "inorder M = inorder x" using ioM io e True by simp
            moreover have "size_of x = 1" using True by (simp add: x)
            ultimately show ?thesis using bM szM by auto
          next
            case nonempty: False
            define x' where "x' = BNode kr (M # cr) False"
            have fx': "fixChildSize t lt x i = (MODIFIED_NOT_ROOT, x')"
              unfolding fx x'_def using nonempty by auto
            have io': "inorder x' = inorder x"
              using inorder_zip[of "[]" "[]" cr kr M] l by (simp add: x'_def io ioM)
            have bx': "bt t (Suc h) x'"
              unfolding x'_def bt_BNode using kids lenx l bM szM by auto
            have srt_k: "lt s (hd kr)"
            proof -
              have "hd kr \<in> set (rights kr (map inorder cr))"
                using set_keys_rights[of kr "map inorder cr"] l nonempty by auto
              then show ?thesis using srt unfolding io sorted_wrt_append by auto
            qed
            have fi: "findIndex lt x' k = 0 \<and> lt k (key x' ! 0)" if "lt k (key x ! 0)" for k
            proof -
              have "lt k (hd kr)" using that ks srt_k tr by blast
              moreover from this have "\<not> lt (hd kr) k" by (rule asym)
              ultimately show ?thesis
                unfolding findIndex_def x'_def using nonempty by (cases kr) auto
            qed
            have "0 \<le> size_of x' \<and> t \<le> size_of (child x' ! 0) \<and>
                  (i = size_of x \<longrightarrow> 0 = size_of x') \<and> (i = 0 \<longrightarrow> (0::nat) = 0) \<and>
                  (\<forall>k. findIndex lt x k = i \<longrightarrow> (i < size_of x \<longrightarrow> lt k (key x ! i)) \<longrightarrow>
                       findIndex lt x' k = 0 \<and> (0 < size_of x' \<longrightarrow> lt k (key x' ! 0)))"
              using szM fi i0 i1 by (auto simp: x'_def)
            moreover have "size_of x \<le> Suc (size_of x')" "size_of x' \<le> size_of x" "1 \<le> size_of x'"
              using nonempty by (cases kr; simp add: x x'_def)+
            ultimately show ?thesis using fx' io' bx' nr(2) by blast
          qed
        qed
      qed
    qed
  qed
qed

lemma fix_okE:
  assumes so: "strict_order lt" and t: "2 \<le> t" and b: "bt t (Suc h) x"
    and i: "i \<le> size_of x" and ne: "1 \<le> size_of x"
    and srt: "sorted_wrt lt (inorder x)"
  obtains code x' i' where
    "fixChildSize t lt x i = (code, x')" "inorder x' = inorder x"
    "code = NEW_ROOT \<Longrightarrow> size_of x = 1 \<and> bt t h x' \<and> t \<le> size_of x'"
    "code \<noteq> NEW_ROOT \<Longrightarrow>
       bt t (Suc h) x' \<and> size_of x \<le> Suc (size_of x') \<and> size_of x' \<le> size_of x \<and>
       1 \<le> size_of x' \<and> i' \<le> size_of x' \<and> t \<le> size_of (child x' ! i') \<and>
       (i = size_of x \<longrightarrow> i' = size_of x') \<and> (i = 0 \<longrightarrow> i' = 0)"
    "\<And>k. code \<noteq> NEW_ROOT \<Longrightarrow> findIndex lt x k = i \<Longrightarrow> (i < size_of x \<longrightarrow> lt k (key x ! i)) \<Longrightarrow>
       findIndex lt x' k = i' \<and> (i' < size_of x' \<longrightarrow> lt k (key x' ! i'))"
proof -
  from fix_ok[OF so t b i ne srt] show ?thesis
  proof (elim exE conjE)
    fix code x'
    assume a: "fixChildSize t lt x i = (code, x')" and a2: "inorder x' = inorder x"
      and c: "code = NEW_ROOT \<longrightarrow> size_of x = 1 \<and> bt t h x' \<and> t \<le> size_of x'"
      and d: "code \<noteq> NEW_ROOT \<longrightarrow>
         bt t (Suc h) x' \<and> size_of x \<le> Suc (size_of x') \<and> size_of x' \<le> size_of x \<and>
         1 \<le> size_of x' \<and>
         (\<exists>i'. i' \<le> size_of x' \<and> t \<le> size_of (child x' ! i') \<and>
            (i = size_of x \<longrightarrow> i' = size_of x') \<and> (i = 0 \<longrightarrow> i' = 0) \<and>
            (\<forall>k. findIndex lt x k = i \<longrightarrow> (i < size_of x \<longrightarrow> lt k (key x ! i)) \<longrightarrow>
                 findIndex lt x' k = i' \<and> (i' < size_of x' \<longrightarrow> lt k (key x' ! i'))))"
    show thesis
    proof (cases "code = NEW_ROOT")
      case True
      show thesis
      proof (rule that[of code x' 0])
        show "fixChildSize t lt x i = (code, x')" by (rule a)
        show "inorder x' = inorder x" by (rule a2)
        show "size_of x = 1 \<and> bt t h x' \<and> t \<le> size_of x'" using c True by (rule mp)
      qed (use True in simp_all)
    next
      case False
      from d False have d': "bt t (Suc h) x' \<and> size_of x \<le> Suc (size_of x') \<and> size_of x' \<le> size_of x \<and>
         1 \<le> size_of x' \<and>
         (\<exists>i'. i' \<le> size_of x' \<and> t \<le> size_of (child x' ! i') \<and>
            (i = size_of x \<longrightarrow> i' = size_of x') \<and> (i = 0 \<longrightarrow> i' = 0) \<and>
            (\<forall>k. findIndex lt x k = i \<longrightarrow> (i < size_of x \<longrightarrow> lt k (key x ! i)) \<longrightarrow>
                 findIndex lt x' k = i' \<and> (i' < size_of x' \<longrightarrow> lt k (key x' ! i'))))"
        by (rule mp)
      note d1 = d'[THEN conjunct1] d'[THEN conjunct2, THEN conjunct1]
        d'[THEN conjunct2, THEN conjunct2, THEN conjunct1]
        d'[THEN conjunct2, THEN conjunct2, THEN conjunct2, THEN conjunct1]
      note ex = d'[THEN conjunct2, THEN conjunct2, THEN conjunct2, THEN conjunct2]
      from ex obtain i' where E: "i' \<le> size_of x' \<and> t \<le> size_of (child x' ! i') \<and>
            (i = size_of x \<longrightarrow> i' = size_of x') \<and> (i = 0 \<longrightarrow> i' = 0) \<and>
            (\<forall>k. findIndex lt x k = i \<longrightarrow> (i < size_of x \<longrightarrow> lt k (key x ! i)) \<longrightarrow>
                 findIndex lt x' k = i' \<and> (i' < size_of x' \<longrightarrow> lt k (key x' ! i')))" ..
      note e1 = E[THEN conjunct1] E[THEN conjunct2, THEN conjunct1]
        E[THEN conjunct2, THEN conjunct2, THEN conjunct1]
        E[THEN conjunct2, THEN conjunct2, THEN conjunct2, THEN conjunct1]
      note e2 = E[THEN conjunct2, THEN conjunct2, THEN conjunct2, THEN conjunct2]
      show thesis
      proof (rule that[of code x' i'])
        show "fixChildSize t lt x i = (code, x')" by (rule a)
        show "inorder x' = inorder x" by (rule a2)
        show "size_of x = 1 \<and> bt t h x' \<and> t \<le> size_of x'" if "code = NEW_ROOT"
          using that False by simp
        show "bt t (Suc h) x' \<and> size_of x \<le> Suc (size_of x') \<and> size_of x' \<le> size_of x \<and>
           1 \<le> size_of x' \<and> i' \<le> size_of x' \<and> t \<le> size_of (child x' ! i') \<and>
           (i = size_of x \<longrightarrow> i' = size_of x') \<and> (i = 0 \<longrightarrow> i' = 0)"
          using d1 e1 by (intro conjI)
        show "findIndex lt x' k = i' \<and> (i' < size_of x' \<longrightarrow> lt k (key x' ! i'))"
          if "findIndex lt x k = i" "i < size_of x \<longrightarrow> lt k (key x ! i)" for k
          using e2[THEN spec, of k, THEN mp, OF that(1), THEN mp, OF that(2)] .
      qed
    qed
  qed
qed

subsection \<open>The two inner loops of remove\<close>

lemma bt_zip_last:
  assumes "bt t (Suc h) x"
  obtains kl cl c where "x = BNode kl (cl @ [c]) False" "length cl = length kl"
    "c = child x ! size_of x"
proof -
  obtain ks cs lf where x: "x = BNode ks cs lf" by (cases x)
  from assms have lf: "\<not> lf" and len: "length cs = Suc (length ks)" by (auto simp: x)
  then obtain cl c where cs: "cs = cl @ [c]" "length cl = length ks"
    by (cases cs rule: rev_cases) auto
  show ?thesis
  proof (rule that[of ks cl c])
    show "x = BNode ks (cl @ [c]) False" using lf cs by (simp add: x)
    show "length cl = length ks" by (rule cs(2))
    show "c = child x ! size_of x" using cs by (simp add: x nth_append)
  qed
qed

lemma bt_zip_first:
  assumes "bt t (Suc h) x"
  obtains kr c cr where "x = BNode kr (c # cr) False" "length cr = length kr"
    "c = child x ! 0"
proof -
  obtain ks cs lf where x: "x = BNode ks cs lf" by (cases x)
  from assms have lf: "\<not> lf" and len: "length cs = Suc (length ks)" by (auto simp: x)
  then obtain c cr where cs: "cs = c # cr" "length cr = length ks"
    by (cases cs) auto
  show ?thesis
  proof (rule that[of ks c cr])
    show "x = BNode ks (c # cr) False" using lf cs by (simp add: x)
    show "length cr = length ks" by (rule cs(2))
    show "c = child x ! 0" using cs by (simp add: x)
  qed
qed

lemma remove_predecessor_ok:
  assumes so: "strict_order lt" and t: "2 \<le> t"
  shows "bt t h x \<Longrightarrow> t \<le> size_of x \<Longrightarrow> sorted_wrt lt (inorder x) \<Longrightarrow>
    \<exists>p x'. remove_predecessor t lt x = Some (p, x') \<and> bt t h x' \<and>
           inorder x = inorder x' @ [p] \<and> size_of x \<le> Suc (size_of x')"
proof (induction h arbitrary: x)
  case 0
  obtain ks cs lf where x: "x = BNode ks cs lf" by (cases x)
  from 0(1) have lf: "lf" "cs = []" by (auto simp: x bt_leaf)
  from 0(2) t have ne: "ks \<noteq> []" by (auto simp: x)
  have "remove_predecessor t lt x = Some (nodeDelete x (size_of x - 1))"
    by (subst remove_predecessor.simps) (simp add: x lf)
  moreover have "nodeDelete x (size_of x - 1) = (last ks, BNode (butlast ks) [] True)"
    using ne lf by (simp add: nodeDelete_def x last_conv_nth butlast_conv_take)
  moreover have "bt t 0 (BNode (butlast ks) [] True)"
    using 0(1) by (auto simp: x bt_leaf)
  ultimately show ?case using ne lf by (simp add: x)
next
  case (Suc h)
  have ne: "1 \<le> size_of x" using Suc(3) t by simp
  from fix_okE[OF so t Suc(2) le_refl ne Suc(4)] obtain code x1 i' where
    fx: "fixChildSize t lt x (size_of x) = (code, x1)" and io1: "inorder x1 = inorder x"
    and nrt: "code = NEW_ROOT \<Longrightarrow> size_of x = 1 \<and> bt t h x1 \<and> t \<le> size_of x1"
    and ok: "code \<noteq> NEW_ROOT \<Longrightarrow>
       bt t (Suc h) x1 \<and> size_of x \<le> Suc (size_of x1) \<and> size_of x1 \<le> size_of x \<and>
       1 \<le> size_of x1 \<and> i' \<le> size_of x1 \<and> t \<le> size_of (child x1 ! i') \<and>
       (size_of x = size_of x \<longrightarrow> i' = size_of x1) \<and> (size_of x = 0 \<longrightarrow> i' = 0)"
    by metis
  have cn: "code \<noteq> NEW_ROOT" using nrt Suc(3) t by auto
  note ok' = ok[OF cn]
  have b1: "bt t (Suc h) x1" and sz1: "size_of x \<le> Suc (size_of x1)"
    and szc: "t \<le> size_of (child x1 ! size_of x1)"
    using ok' by auto
  from bt_zip_last[OF b1] obtain kl cl c where
    x1: "x1 = BNode kl (cl @ [c]) False" and l: "length cl = length kl"
    and c: "c = child x1 ! size_of x1"
    by blast
  have kids: "\<forall>c' \<in> set (cl @ [c]). t - 1 \<le> size_of c' \<and> bt t h c'"
    and lenx: "length kl \<le> 2 * t - 1"
    using b1 unfolding x1 bt_BNode by auto
  have io: "inorder x1 = lefts (map inorder cl) kl @ inorder c"
    using inorder_zip[of cl kl "[]" "[]" c] l by (simp add: x1)
  have sx1: "size_of x1 = length kl" by (simp add: x1)
  have sc: "sorted_wrt lt (inorder c)"
    using Suc(4) unfolding io1[symmetric] io sorted_wrt_append by auto
  have bc: "bt t h c" using kids by auto
  have szc': "t \<le> size_of c" using szc unfolding c .
  from Suc.IH[OF bc szc' sc] obtain p c' where
    r: "remove_predecessor t lt c = Some (p, c')" "bt t h c'" "inorder c = inorder c' @ [p]"
      "size_of c \<le> Suc (size_of c')"
    by blast
  have nl: "\<not> leaf x" using Suc(2) by simp
  have "remove_predecessor t lt x = Some (p, set_child x1 (size_of x1) c')"
    by (subst remove_predecessor.simps) (simp add: nl fx c[symmetric] r(1))
  moreover have sce: "set_child x1 (size_of x1) c' = BNode kl (cl @ [c']) False"
    unfolding sx1 using l by (simp add: x1 set_child_def list_update_append)
  moreover have "bt t (Suc h) (BNode kl (cl @ [c']) False)"
    using kids lenx l r(2,4) szc' unfolding bt_BNode by auto
  moreover have "inorder (BNode kl (cl @ [c']) False) = lefts (map inorder cl) kl @ inorder c'"
    using inorder_zip[of cl kl "[]" "[]" c'] l by (simp add: x1)
  moreover have "size_of x \<le> Suc (size_of (BNode kl (cl @ [c']) False))"
    using sz1 by (simp add: x1)
  ultimately show ?case using io io1 r(3) by simp
qed

lemma remove_successor_ok:
  assumes so: "strict_order lt" and t: "2 \<le> t"
  shows "bt t h x \<Longrightarrow> t \<le> size_of x \<Longrightarrow> sorted_wrt lt (inorder x) \<Longrightarrow>
    \<exists>p x'. remove_successor t lt x = Some (p, x') \<and> bt t h x' \<and>
           inorder x = p # inorder x' \<and> size_of x \<le> Suc (size_of x')"
proof (induction h arbitrary: x)
  case 0
  obtain ks cs lf where x: "x = BNode ks cs lf" by (cases x)
  from 0(1) have lf: "lf" "cs = []" by (auto simp: x bt_leaf)
  from 0(2) t obtain k0 ks' where ne: "ks = k0 # ks'" by (cases ks) (auto simp: x)
  have "remove_successor t lt x = Some (nodeDelete x 0)"
    by (subst remove_successor.simps) (simp add: x lf)
  moreover have "nodeDelete x 0 = (k0, BNode ks' [] True)"
    using ne lf by (simp add: nodeDelete_def x)
  moreover have "bt t 0 (BNode ks' [] True)"
    using 0(1) by (auto simp: x bt_leaf ne)
  ultimately show ?case using ne lf by (simp add: x)
next
  case (Suc h)
  have ne: "1 \<le> size_of x" using Suc(3) t by simp
  have i0: "0 \<le> size_of x" by simp
  from fix_okE[OF so t Suc(2) i0 ne Suc(4)] obtain code x1 i' where
    fx: "fixChildSize t lt x 0 = (code, x1)" and io1: "inorder x1 = inorder x"
    and nrt: "code = NEW_ROOT \<Longrightarrow> size_of x = 1 \<and> bt t h x1 \<and> t \<le> size_of x1"
    and ok: "code \<noteq> NEW_ROOT \<Longrightarrow>
       bt t (Suc h) x1 \<and> size_of x \<le> Suc (size_of x1) \<and> size_of x1 \<le> size_of x \<and>
       1 \<le> size_of x1 \<and> i' \<le> size_of x1 \<and> t \<le> size_of (child x1 ! i') \<and>
       (0 = size_of x \<longrightarrow> i' = size_of x1) \<and> ((0::nat) = 0 \<longrightarrow> i' = 0)"
    by metis
  have cn: "code \<noteq> NEW_ROOT" using nrt Suc(3) t by auto
  note ok' = ok[OF cn]
  have b1: "bt t (Suc h) x1" and sz1: "size_of x \<le> Suc (size_of x1)"
    and szc: "t \<le> size_of (child x1 ! 0)"
    using ok' by auto
  from bt_zip_first[OF b1] obtain kr c cr where
    x1: "x1 = BNode kr (c # cr) False" and l: "length cr = length kr"
    and c: "c = child x1 ! 0"
    by blast
  have kids: "\<forall>c' \<in> set (c # cr). t - 1 \<le> size_of c' \<and> bt t h c'"
    and lenx: "length kr \<le> 2 * t - 1"
    using b1 unfolding x1 bt_BNode by auto
  have io: "inorder x1 = inorder c @ rights kr (map inorder cr)"
    using inorder_zip[of "[]" "[]" cr kr c] l by (simp add: x1)
  have sc: "sorted_wrt lt (inorder c)"
    using Suc(4) unfolding io1[symmetric] io sorted_wrt_append by auto
  have bc: "bt t h c" using kids by auto
  have szc': "t \<le> size_of c" using szc unfolding c .
  from Suc.IH[OF bc szc' sc] obtain p c' where
    r: "remove_successor t lt c = Some (p, c')" "bt t h c'" "inorder c = p # inorder c'"
      "size_of c \<le> Suc (size_of c')"
    by blast
  have nl: "\<not> leaf x" using Suc(2) by simp
  have "remove_successor t lt x = Some (p, set_child x1 0 c')"
    by (subst remove_successor.simps) (simp add: nl fx c[symmetric] r(1))
  moreover have sce: "set_child x1 0 c' = BNode kr (c' # cr) False"
    by (simp add: x1 set_child_def)
  moreover have "bt t (Suc h) (BNode kr (c' # cr) False)"
    using kids lenx l r(2,4) szc' unfolding bt_BNode by auto
  moreover have "inorder (BNode kr (c' # cr) False) = inorder c' @ rights kr (map inorder cr)"
    using inorder_zip[of "[]" "[]" cr kr c'] l by (simp add: x1)
  moreover have "size_of x \<le> Suc (size_of (BNode kr (c' # cr) False))"
    using sz1 by (simp add: x1)
  ultimately show ?case using io io1 r(3) by simp
qed

subsection \<open>Removal from a traversal\<close>

lemma removed_here: "matches lt k y \<Longrightarrow> removed lt k (l @ y # r) (Inr y) (l @ r)"
  unfolding removed_def by auto

lemma removed_none: "\<forall>y \<in> set xs. \<not> matches lt k y \<Longrightarrow> removed lt k xs (Inl REMOVE_KEY_NOT_FOUND) xs"
  unfolding removed_def by auto

lemma removed_mid:
  assumes "removed lt k C res C'" "\<forall>y \<in> set L. \<not> matches lt k y" "\<forall>y \<in> set R. \<not> matches lt k y"
  shows "removed lt k (L @ C @ R) res (L @ C' @ R)"
proof (cases "\<exists>y \<in> set C. matches lt k y")
  case True
  with assms(1) obtain l y r where "res = Inr y" "matches lt k y" "C = l @ y # r" "C' = l @ r"
    unfolding removed_def by auto
  then have "res = Inr y \<and> matches lt k y \<and> L @ C @ R = (L @ l) @ y # (r @ R) \<and>
             L @ C' @ R = (L @ l) @ (r @ R)" by simp
  moreover have "\<exists>y \<in> set (L @ C @ R). matches lt k y" using True by auto
  ultimately show ?thesis unfolding removed_def by metis
next
  case False
  with assms(1) have "res = Inl REMOVE_KEY_NOT_FOUND" "C' = C" unfolding removed_def by auto
  moreover have "\<not> (\<exists>y \<in> set (L @ C @ R). matches lt k y)" using False assms(2,3) by auto
  ultimately show ?thesis unfolding removed_def by simp
qed

lemma lt_not_matches: "strict_order lt \<Longrightarrow> lt y k \<Longrightarrow> \<not> matches lt k y"
  and gt_not_matches: "strict_order lt \<Longrightarrow> lt k y \<Longrightarrow> \<not> matches lt k y"
  by (simp_all add: matches_def)

text \<open>What findIndex says about the keys around the child it selects.\<close>

lemma findIndex_bounds:
  assumes so: "strict_order lt"
    and x: "x = BNode (kl @ kr) (cl @ c # cr) False"
    and l: "length kl = findIndex lt x k" "length cl = length kl" "length cr = length kr"
    and srt: "sorted_wrt lt (inorder x)"
  shows "\<forall>y \<in> set (lefts (map inorder cl) kl). lt y k"
    and "(kr \<noteq> [] \<Longrightarrow> lt k (hd kr)) \<Longrightarrow> \<forall>y \<in> set (rights kr (map inorder cr)). lt k y"
proof -
  have io: "inorder x = lefts (map inorder cl) kl @ inorder c @ rights kr (map inorder cr)"
    unfolding x using l by (intro inorder_zip) simp_all
  have sL: "sorted_wrt lt (lefts (map inorder cl) kl)"
    and sR: "sorted_wrt lt (rights kr (map inorder cr))"
    using srt unfolding io sorted_wrt_append by auto
  have "findIndex_keys lt (kl @ kr) k = length kl" using l(1) by (simp add: findIndex_def x)
  then have a: "\<forall>y \<in> set kl. lt y k" by (simp add: findIndex_keys_mid)
  show "\<forall>y \<in> set (lefts (map inorder cl) kl). lt y k"
  proof
    fix y assume "y \<in> set (lefts (map inorder cl) kl)"
    moreover have "lt (last kl) k" if "kl \<noteq> []" using a last_in_set[OF that] by blast
    ultimately show "lt y k"
      using lefts_bound[OF so, of "map inorder cl" kl k y] sL l by auto
  qed
  show "\<forall>y \<in> set (rights kr (map inorder cr)). lt k y" if "kr \<noteq> [] \<Longrightarrow> lt k (hd kr)"
  proof
    fix y assume "y \<in> set (rights kr (map inorder cr))"
    then show "lt k y"
      using rights_bound[OF so, of kr "map inorder cr" k y] sR l that by auto
  qed
qed

lemma leaf_no_match:
  assumes so: "strict_order lt" and srt: "sorted_wrt lt ks"
    and nf: "\<not> (findIndex_keys lt ks k < length ks \<and>
                \<not> (lt (ks ! findIndex_keys lt ks k) k \<or> lt k (ks ! findIndex_keys lt ks k)))"
  shows "\<forall>y \<in> set ks. \<not> matches lt k y"
proof
  fix y assume "y \<in> set ks"
  then obtain n where n: "n < length ks" "y = ks ! n" by (auto simp: in_set_conv_nth)
  define i where "i = findIndex_keys lt ks k"
  have tr: "lt u v \<Longrightarrow> lt v w \<Longrightarrow> lt u w" for u v w using strict_orderD(2)[OF so] .
  show "\<not> matches lt k y"
  proof (cases "n < i")
    case True
    then have "lt y k" using findIndex_keys_before[of n lt ks k] n i_def by simp
    then show ?thesis by (rule lt_not_matches[OF so])
  next
    case False
    then have il: "i < length ks" using n by simp
    have "\<not> lt (ks ! i) k" using findIndex_keys_at[of lt ks k] il i_def by simp
    with nf il have ki: "lt k (ks ! i)" unfolding i_def by auto
    have "lt k y"
    proof (cases "n = i")
      case True
      then show ?thesis using ki n by simp
    next
      case ne: False
      with False have "i < n" by simp
      then have "lt (ks ! i) (ks ! n)" using srt n by (simp add: sorted_wrt_iff_nth_less)
      then show ?thesis using ki n tr by blast
    qed
    then show ?thesis by (rule gt_not_matches[OF so])
  qed
qed

subsection \<open>The branches of the main loop of remove\<close>

text \<open>The branches of the main loop of remove.\<close>

lemma rl_found_leaf:
  assumes "findIndex lt x k = i" "i < size_of x" "\<not> (lt (key x ! i) k \<or> lt k (key x ! i))" "leaf x"
  shows "remove_loop t lt x k = Some (Inr (key x ! i), False, snd (nodeDelete x i))"
  by (subst remove_loop.simps) (use assms in \<open>simp add: Let_def\<close>)

lemma rl_found_pred:
  assumes "findIndex lt x k = i" "i < size_of x" "\<not> (lt (key x ! i) k \<or> lt k (key x ! i))"
    "\<not> leaf x" "t \<le> size_of (child x ! i)"
    "remove_predecessor t lt (child x ! i) = Some (p, c)"
  shows "remove_loop t lt x k = Some (Inr (key x ! i), False, set_child (set_key x i p) i c)"
  by (subst remove_loop.simps) (use assms in \<open>simp add: Let_def\<close>)

lemma rl_found_succ:
  assumes "findIndex lt x k = i" "i < size_of x" "\<not> (lt (key x ! i) k \<or> lt k (key x ! i))"
    "\<not> leaf x" "\<not> t \<le> size_of (child x ! i)" "t \<le> size_of (child x ! Suc i)"
    "remove_successor t lt (child x ! Suc i) = Some (s, c)"
  shows "remove_loop t lt x k = Some (Inr (key x ! i), False, set_child (set_key x i s) (Suc i) c)"
  by (subst remove_loop.simps) (use assms in \<open>simp add: Let_def\<close>)

lemma rl_found_merge:
  assumes "findIndex lt x k = i" "i < size_of x" "\<not> (lt (key x ! i) k \<or> lt k (key x ! i))"
    "\<not> leaf x" "\<not> t \<le> size_of (child x ! i)" "\<not> t \<le> size_of (child x ! Suc i)"
    "mergeChildren x i = (code, parent', merged)"
    "remove_loop t lt merged k = Some (res, nr, n)"
  shows "remove_loop t lt x k =
           Some (res, nr \<or> code = NEW_ROOT,
                 if nr \<or> code = NEW_ROOT then n else set_child parent' i n)"
  by (subst remove_loop.simps) (use assms in \<open>simp add: Let_def\<close>)

lemma rl_none_leaf:
  assumes "findIndex lt x k = i" "\<not> (i < size_of x \<and> \<not> (lt (key x ! i) k \<or> lt k (key x ! i)))"
    "leaf x"
  shows "remove_loop t lt x k = Some (Inl REMOVE_KEY_NOT_FOUND, False, x)"
  by (subst remove_loop.simps) (use assms in \<open>auto simp add: Let_def\<close>)

lemma rl_none_newroot:
  assumes "findIndex lt x k = i" "\<not> (i < size_of x \<and> \<not> (lt (key x ! i) k \<or> lt k (key x ! i)))"
    "\<not> leaf x" "fixChildSize t lt x i = (NEW_ROOT, y)"
    "remove_loop t lt y k = Some (res, nr, n)"
  shows "remove_loop t lt x k = Some (res, True, n)"
  by (subst remove_loop.simps) (use assms in \<open>auto simp add: Let_def\<close>)

lemma rl_none_down:
  assumes "findIndex lt x k = i" "\<not> (i < size_of x \<and> \<not> (lt (key x ! i) k \<or> lt k (key x ! i)))"
    "\<not> leaf x" "fixChildSize t lt x i = (code, y)" "code \<noteq> NEW_ROOT"
    "remove_loop t lt (child y ! findIndex lt y k) k = Some (res, nr, n)"
  shows "remove_loop t lt x k =
           Some (res, nr, if nr then n else set_child y (findIndex lt y k) n)"
  by (subst remove_loop.simps) (use assms in \<open>auto simp add: Let_def\<close>)

subsection \<open>The main loop of remove\<close>

lemma removed_mid_found:
  assumes "removed lt k C res C'" "\<exists>y \<in> set C. matches lt k y"
  shows "removed lt k (L @ C @ R) res (L @ C' @ R)"
proof -
  from assms obtain l y r where "res = Inr y" "matches lt k y" "C = l @ y # r" "C' = l @ r"
    unfolding removed_def by auto
  then have "res = Inr y \<and> matches lt k y \<and> L @ C @ R = (L @ l) @ y # (r @ R) \<and>
             L @ C' @ R = (L @ l) @ (r @ R)" by simp
  moreover have "\<exists>y \<in> set (L @ C @ R). matches lt k y" using assms(2) by auto
  ultimately show ?thesis unfolding removed_def by metis
qed

lemma remove_loop_ok:
  assumes so: "strict_order lt" and t: "2 \<le> t"
  shows "bt t h x \<Longrightarrow> (0 < h \<longrightarrow> 1 \<le> size_of x) \<Longrightarrow> sorted_wrt lt (inorder x) \<Longrightarrow>
    \<exists>res nr n. remove_loop t lt x k = Some (res, nr, n) \<and>
       removed lt k (inorder x) res (inorder n) \<and>
       (t \<le> size_of x \<longrightarrow> \<not> nr \<and> bt t h n \<and> size_of x \<le> Suc (size_of n)) \<and>
       (\<exists>h'. bt t h' n \<and> (0 < h' \<longrightarrow> 1 \<le> size_of n))"
proof (induction h arbitrary: x)
  case 0
  obtain ks cs lf where x: "x = BNode ks cs lf" by (cases x)
  from 0(1) have lf: "lf" "cs = []" and lk: "length ks \<le> 2 * t - 1" by (auto simp: x bt_leaf)
  have io: "inorder x = ks" using lf by (simp add: x)
  define i where "i = findIndex lt x k"
  have ik: "i = findIndex_keys lt ks k" by (simp add: i_def findIndex_def x)
  show ?case
  proof (cases "i < size_of x \<and> \<not> (lt (key x ! i) k \<or> lt k (key x ! i))")
    case True
    then have il: "i < length ks" and m: "matches lt k (ks ! i)"
      by (auto simp: x matches_def)
    have "remove_loop t lt x k = Some (Inr (key x ! i), False, snd (nodeDelete x i))"
      using True lf by (intro rl_found_leaf) (simp_all add: i_def x)
    moreover have "snd (nodeDelete x i) = BNode (take i ks @ drop (Suc i) ks) [] True"
      using lf by (simp add: nodeDelete_def x)
    moreover have "removed lt k (take i ks @ ks ! i # drop (Suc i) ks) (Inr (ks ! i))
                     (take i ks @ drop (Suc i) ks)"
      using m by (rule removed_here)
    then have "removed lt k ks (Inr (ks ! i)) (take i ks @ drop (Suc i) ks)"
      using id_take_nth_drop[OF il] by simp
    then have "removed lt k (inorder x) (Inr (key x ! i))
                     (inorder (BNode (take i ks @ drop (Suc i) ks) [] True))"
      unfolding io by (simp add: x)
    moreover have "bt t 0 (BNode (take i ks @ drop (Suc i) ks) [] True)"
      using lk il by (simp add: bt_leaf)
    moreover have "size_of x \<le> Suc (size_of (BNode (take i ks @ drop (Suc i) ks) [] True))"
      using il by (simp add: x)
    ultimately show ?thesis by (metis less_numeral_extra(3))
  next
    case False
    have "remove_loop t lt x k = Some (Inl REMOVE_KEY_NOT_FOUND, False, x)"
      using False lf by (intro rl_none_leaf[where i = i]) (simp_all add: i_def x)
    moreover have "sorted_wrt lt ks" using 0(3) unfolding io .
    then have "\<forall>y \<in> set ks. \<not> matches lt k y"
    proof (rule leaf_no_match[OF so])
      show "\<not> (findIndex_keys lt ks k < length ks \<and>
                \<not> (lt (ks ! findIndex_keys lt ks k) k \<or> lt k (ks ! findIndex_keys lt ks k)))"
        using False unfolding ik by (simp add: x)
    qed
    then have "removed lt k (inorder x) (Inl REMOVE_KEY_NOT_FOUND) (inorder x)"
      unfolding io by (rule removed_none)
    ultimately show ?thesis using 0(1) by (metis le_SucI le_refl less_numeral_extra(3))
  qed
next
  case (Suc h)
  have tr: "lt u v \<Longrightarrow> lt v w \<Longrightarrow> lt u w" for u v w using strict_orderD(2)[OF so] .
  have t1: "1 \<le> t" using t by simp
  have nl: "\<not> leaf x" using Suc(2) by simp
  have ne: "1 \<le> size_of x" using Suc(3) by simp
  define i where "i = findIndex lt x k"
  have ile: "i \<le> size_of x" unfolding i_def findIndex_def size_of_def by (rule findIndex_keys_le)
  show ?case
  proof (cases "i < size_of x \<and> \<not> (lt (key x ! i) k \<or> lt k (key x ! i))")
    case found: True
    then have il: "i < size_of x" by simp
    from bt_zip_key[OF Suc(2) il] obtain kl s kr cl A B cr where
      x: "x = BNode (kl @ s # kr) (cl @ A # B # cr) False"
      and l: "length kl = i" "length cl = i" "length cr = length kr"
      by metis
    have len: "length cl = length kl" using l by simp
    have cA: "child x ! i = A" and cB: "child x ! Suc i = B" and ks: "key x ! i = s"
      using l by (simp_all add: x nth_append)
    have m: "matches lt k s" using found ks by (simp add: matches_def)
    have kids: "\<forall>c \<in> set (cl @ A # B # cr). t - 1 \<le> size_of c \<and> bt t h c"
      and lenx: "length kl + Suc (length kr) \<le> 2 * t - 1"
      using Suc(2) unfolding x bt_BNode by auto
    have bA: "bt t h A" and bB: "bt t h B" and szA1: "t - 1 \<le> size_of A"
      and szB1: "t - 1 \<le> size_of B" using kids by auto
    define Lf where "Lf = lefts (map inorder cl) kl"
    define Rt where "Rt = rights kr (map inorder cr)"
    have io: "inorder x = Lf @ inorder A @ s # inorder B @ Rt"
      unfolding x Lf_def Rt_def using len l(3) by (rule inorder_zip_key)
    have sA: "sorted_wrt lt (inorder A)" and sB: "sorted_wrt lt (inorder B)"
      and sAB: "sorted_wrt lt (inorder A @ s # inorder B)"
      using Suc(4) unfolding io by (auto simp: sorted_wrt_append)
    have sk: "set_child (set_key x i p) j c =
              BNode (kl @ p # kr) ((cl @ A # B # cr)[j := c]) False" for p j c
      using l by (simp add: set_key_def set_child_def x list_update_append)
    show ?thesis
    proof (cases "t \<le> size_of A")
      case True
      from remove_predecessor_ok[OF so t bA True sA] obtain p A' where
        r: "remove_predecessor t lt A = Some (p, A')" "bt t h A'" "inorder A = inorder A' @ [p]"
          "size_of A \<le> Suc (size_of A')"
        by blast
      define n where "n = BNode (kl @ p # kr) (cl @ A' # B # cr) False"
      have "remove_loop t lt x k = Some (Inr (key x ! i), False, set_child (set_key x i p) i A')"
        using found nl True r(1) cA by (intro rl_found_pred) (simp_all add: i_def)
      moreover have "set_child (set_key x i p) i A' = n"
        unfolding sk n_def using l by (simp add: list_update_append)
      moreover have "inorder n = Lf @ inorder A' @ p # inorder B @ Rt"
        unfolding n_def Lf_def Rt_def using len l(3) by (rule inorder_zip_key)
      then have "removed lt k (inorder x) (Inr (key x ! i)) (inorder n)"
        using removed_here[OF m, of "Lf @ inorder A" "inorder B @ Rt"] by (simp add: io r(3) ks)
      moreover have "bt t (Suc h) n"
        unfolding n_def bt_BNode using kids lenx len l(3) r(2,4) True by auto
      moreover have "size_of x = size_of n" by (simp add: x n_def)
      ultimately show ?thesis using ne by (metis le_SucI le_refl)
    next
      case smallA: False
      show ?thesis
      proof (cases "t \<le> size_of B")
        case True
        from remove_successor_ok[OF so t bB True sB] obtain p B' where
          r: "remove_successor t lt B = Some (p, B')" "bt t h B'" "inorder B = p # inorder B'"
            "size_of B \<le> Suc (size_of B')"
          by blast
        define n where "n = BNode (kl @ p # kr) (cl @ A # B' # cr) False"
        have "remove_loop t lt x k = Some (Inr (key x ! i), False, set_child (set_key x i p) (Suc i) B')"
          using found nl smallA True r(1) cA cB by (intro rl_found_succ) (simp_all add: i_def)
        moreover have "set_child (set_key x i p) (Suc i) B' = n"
          unfolding sk n_def using l by (simp add: list_update_append)
        moreover have "inorder n = Lf @ inorder A @ p # inorder B' @ Rt"
          unfolding n_def Lf_def Rt_def using len l(3) by (rule inorder_zip_key)
        then have "removed lt k (inorder x) (Inr (key x ! i)) (inorder n)"
          using removed_here[OF m, of "Lf @ inorder A" "inorder B @ Rt"] by (simp add: io r(3) ks)
        moreover have "bt t (Suc h) n"
          unfolding n_def bt_BNode using kids lenx len l(3) r(2,4) True by auto
        moreover have "size_of x = size_of n" by (simp add: x n_def)
        ultimately show ?thesis using ne by (metis le_SucI le_refl)
      next
        case smallB: False
        define M where "M = BNode (key A @ s # key B) (child A @ child B) (leaf A)"
        define code where "code = (if kl @ kr = [] then NEW_ROOT else MODIFIED_NOT_ROOT)"
        define P where "P = BNode (kl @ kr) (cl @ M # cr) False"
        have mc: "mergeChildren x i = (code, P, M)"
          using mergeChildren_zip[where x = x and kl = kl and s = s and kr = kr and cl = cl
              and a = A and b = B and cr = cr and lf = False] len x l(1)
          by (simp add: code_def P_def M_def)
        have ioM: "inorder M = inorder A @ s # inorder B"
          unfolding M_def using bA bB by (rule inorder_merged)
        have bM: "bt t h M"
          unfolding M_def using bA bB smallA smallB by (intro bt_merged) auto
        have szM: "t \<le> size_of M" using szA1 szB1 t by (simp add: M_def size_of_def)
        have sM: "sorted_wrt lt (inorder M)" using sAB by (simp add: ioM)
        have neM: "0 < h \<longrightarrow> 1 \<le> size_of M" using szM t by auto
        from Suc.IH[OF bM neM sM] szM obtain res nr n' where
          r: "remove_loop t lt M k = Some (res, nr, n')" "removed lt k (inorder M) res (inorder n')"
            "\<not> nr" "bt t h n'" "size_of M \<le> Suc (size_of n')"
          by blast
        have mM: "\<exists>y \<in> set (inorder M). matches lt k y" using m by (auto simp: ioM)
        have rl: "remove_loop t lt x k =
                 Some (res, nr \<or> code = NEW_ROOT,
                       if nr \<or> code = NEW_ROOT then n' else set_child P i n')"
          using found nl smallA smallB cA cB mc r(1)
          by (intro rl_found_merge) (simp_all add: i_def)
        have szn': "t - 1 \<le> size_of n'" using r(5) szM by simp
        show ?thesis
        proof (cases "kl @ kr = []")
          case True
          then have e: "kl = []" "kr = []" "cl = []" "cr = []" using l by auto
          have c: "code = NEW_ROOT" using True by (simp add: code_def)
          have "remove_loop t lt x k = Some (res, True, n')" using rl c by simp
          moreover have "inorder x = inorder M" using e by (simp add: io ioM Lf_def Rt_def)
          moreover have "\<not> t \<le> size_of x" using e t by (simp add: x)
          moreover have "0 < h \<longrightarrow> 1 \<le> size_of n'" using szn' t by auto
          ultimately show ?thesis using r(2,4) by metis
        next
          case False
          then have c: "code \<noteq> NEW_ROOT"
            by (simp add: code_def NEW_ROOT_def MODIFIED_NOT_ROOT_def)
          define n where "n = BNode (kl @ kr) (cl @ n' # cr) False"
          have "remove_loop t lt x k = Some (res, False, set_child P i n')"
            using rl c r(3) by simp
          moreover have "set_child P i n' = n"
            using l by (simp add: P_def n_def set_child_def list_update_append)
          moreover have "inorder n = Lf @ inorder n' @ Rt"
            unfolding n_def Lf_def Rt_def using len l(3) by (rule inorder_zip)
          then have "removed lt k (inorder x) res (inorder n)"
            using removed_mid_found[OF r(2) mM, of Lf Rt] by (simp add: io ioM)
          moreover have "bt t (Suc h) n"
            unfolding n_def bt_BNode using kids lenx len l(3) r(4) szn' by auto
          moreover have "size_of x \<le> Suc (size_of n)" "1 \<le> size_of n"
            using False by (cases kl; cases kr; simp add: x n_def)+
          ultimately show ?thesis by (metis zero_less_Suc)
        qed
      qed
    qed
  next
    case nofound: False
    have below: "lt k (key x ! i)" if "i < size_of x"
    proof -
      have "\<not> lt (key x ! i) k"
        using findIndex_keys_at[of lt "key x" k] that by (simp add: i_def findIndex_def size_of_def)
      then show ?thesis using nofound that by simp
    qed
    from fix_okE[OF so t Suc(2) ile ne Suc(4)] obtain code y i' where
      fx: "fixChildSize t lt x i = (code, y)" and ioy: "inorder y = inorder x"
      and nrt: "code = NEW_ROOT \<Longrightarrow> size_of x = 1 \<and> bt t h y \<and> t \<le> size_of y"
      and ok: "code \<noteq> NEW_ROOT \<Longrightarrow>
         bt t (Suc h) y \<and> size_of x \<le> Suc (size_of y) \<and> size_of y \<le> size_of x \<and>
         1 \<le> size_of y \<and> i' \<le> size_of y \<and> t \<le> size_of (child y ! i') \<and>
         (i = size_of x \<longrightarrow> i' = size_of y) \<and> (i = 0 \<longrightarrow> i' = 0)"
      and fi: "\<And>k. code \<noteq> NEW_ROOT \<Longrightarrow> findIndex lt x k = i \<Longrightarrow>
         (i < size_of x \<longrightarrow> lt k (key x ! i)) \<Longrightarrow>
         findIndex lt y k = i' \<and> (i' < size_of y \<longrightarrow> lt k (key y ! i'))"
      by metis
    have sy: "sorted_wrt lt (inorder y)" using Suc(4) ioy by simp
    show ?thesis
    proof (cases "code = NEW_ROOT")
      case True
      note N = nrt[OF True]
      have by': "bt t h y" and szy: "t \<le> size_of y" and sx: "size_of x = 1" using N by auto
      have ney: "0 < h \<longrightarrow> 1 \<le> size_of y" using szy t by auto
      from Suc.IH[OF by' ney sy] szy obtain res nr n' where
        r: "remove_loop t lt y k = Some (res, nr, n')" "removed lt k (inorder y) res (inorder n')"
          "\<not> nr" "bt t h n'" "size_of y \<le> Suc (size_of n')"
        by blast
      have "remove_loop t lt x k = Some (res, True, n')"
        using nofound nl fx True r(1) by (intro rl_none_newroot[where i = i and y = y and nr = nr])
          (simp_all add: i_def)
      moreover have "\<not> t \<le> size_of x" using sx t by simp
      moreover have "0 < h \<longrightarrow> 1 \<le> size_of n'" using r(5) szy t by auto
      ultimately show ?thesis using r(2,4) ioy by metis
    next
      case False
      note K = ok[OF False]
      have by': "bt t (Suc h) y" and sz: "size_of x \<le> Suc (size_of y)" and ney: "1 \<le> size_of y"
        and i'le: "i' \<le> size_of y" and szc: "t \<le> size_of (child y ! i')"
        using K by auto
      have below': "i < size_of x \<longrightarrow> lt k (key x ! i)" using below by simp
      note F = fi[OF False i_def[symmetric] below']
      have fj: "findIndex lt y k = i'" and kb: "i' < size_of y \<Longrightarrow> lt k (key y ! i')"
        using F by auto
      from bt_zip[OF by' i'le] obtain kl kr cl c cr where
        y: "y = BNode (kl @ kr) (cl @ c # cr) False"
        and l: "length kl = i'" "length cl = i'" "length cr = length kr"
        and c: "c = child y ! i'"
        by metis
      have szc': "t \<le> size_of c" using szc unfolding c .
      have kids: "\<forall>c' \<in> set (cl @ c # cr). t - 1 \<le> size_of c' \<and> bt t h c'"
        and lenx: "length kl + length kr \<le> 2 * t - 1"
        using by' unfolding y bt_BNode by auto
      have bc: "bt t h c" using kids by auto
      define Lf where "Lf = lefts (map inorder cl) kl"
      define Rt where "Rt = rights kr (map inorder cr)"
      have io: "inorder y = Lf @ inorder c @ Rt"
        unfolding y Lf_def Rt_def using l by (intro inorder_zip) simp_all
      have sc: "sorted_wrt lt (inorder c)" using sy unfolding io sorted_wrt_append by auto
      have nec: "0 < h \<longrightarrow> 1 \<le> size_of c" using szc' t by auto
      from Suc.IH[OF bc nec sc] szc' obtain res nr n' where
        r: "remove_loop t lt c k = Some (res, nr, n')" "removed lt k (inorder c) res (inorder n')"
          "\<not> nr" "bt t h n'" "size_of c \<le> Suc (size_of n')"
        by blast
      have hk: "lt k (hd kr)" if "kr \<noteq> []"
      proof -
        have "i' < size_of y" using that l by (simp add: y)
        from kb[OF this] show ?thesis using that l by (simp add: y nth_append hd_conv_nth)
      qed
      have l': "length kl = findIndex lt y k" "length cl = length kl" using l fj by simp_all
      note B = findIndex_bounds[OF so y l' l(3) sy, folded Lf_def Rt_def]
      have nL: "\<forall>u \<in> set Lf. \<not> matches lt k u" using B(1) lt_not_matches[OF so] by blast
      have nR: "\<forall>u \<in> set Rt. \<not> matches lt k u" using B(2) hk gt_not_matches[OF so] by blast
      define n where "n = BNode (kl @ kr) (cl @ n' # cr) False"
      have "remove_loop t lt x k =
              Some (res, nr, if nr then n' else set_child y (findIndex lt y k) n')"
        using nofound nl fx False r(1) c fj
        by (intro rl_none_down[where i = i and code = code]) (simp_all add: i_def)
      then have "remove_loop t lt x k = Some (res, False, set_child y i' n')"
        using r(3) fj by simp
      moreover have "set_child y i' n' = n"
        using l by (simp add: y n_def set_child_def list_update_append)
      moreover have "inorder n = Lf @ inorder n' @ Rt"
        unfolding n_def Lf_def Rt_def using l by (intro inorder_zip) simp_all
      then have "removed lt k (inorder x) res (inorder n)"
        using removed_mid[OF r(2) nL nR] by (simp add: io ioy[symmetric])
      moreover have "bt t (Suc h) n"
        unfolding n_def bt_BNode using kids lenx l r(4,5) szc' by auto
      moreover have "size_of x \<le> Suc (size_of n)" "1 \<le> size_of n"
        using sz ney by (simp_all add: y n_def)
      ultimately show ?thesis by (metis zero_less_Suc)
    qed
  qed
qed

subsection \<open>remove and search\<close>

lemma removed_sorted:
  "removed lt k xs res ys \<Longrightarrow> sorted_wrt lt xs \<Longrightarrow> sorted_wrt lt ys"
  unfolding removed_def by (auto simp: sorted_wrt_append split: if_splits)

lemma remove_bt_ok:
  assumes so: "strict_order (lessThan T)" and t: "2 \<le> minDegree T" and inv: "btree_inv T"
  shows "\<exists>res T'. remove_bt T k = Some (res, T') \<and> btree_inv T' \<and>
           removed (lessThan T) k (inorder (root T)) res (inorder (root T')) \<and>
           lessThan T' = lessThan T \<and> minDegree T' = minDegree T"
proof -
  from inv obtain h where b: "bt (minDegree T) h (root T)"
    and ne: "\<not> leaf (root T) \<longrightarrow> 1 \<le> size_of (root T)"
    and srt: "sorted_wrt (lessThan T) (inorder (root T))"
    unfolding btree_inv_def by blast
  have ne': "0 < h \<longrightarrow> 1 \<le> size_of (root T)" using ne bt_leaf_iff[OF b] by simp
  from remove_loop_ok[OF so t b ne' srt, of k] obtain res nr n h' where
    r: "remove_loop (minDegree T) (lessThan T) (root T) k = Some (res, nr, n)"
      "removed (lessThan T) k (inorder (root T)) res (inorder n)"
      "bt (minDegree T) h' n" "0 < h' \<longrightarrow> 1 \<le> size_of n"
    by blast
  have "remove_bt T k = Some (res, T\<lparr>root := n\<rparr>)"
    unfolding remove_bt_def r(1) by simp
  moreover have "btree_inv (T\<lparr>root := n\<rparr>)"
    unfolding btree_inv_def using r(3,4) bt_leaf_iff[OF r(3)] removed_sorted[OF r(2) srt]
    by auto
  ultimately show ?thesis using r(2) by simp
qed

text \<open>Search.\<close>

lemma search_loop_ok:
  assumes so: "strict_order lt"
  shows "bt t h x \<Longrightarrow> sorted_wrt lt (inorder x) \<Longrightarrow>
    \<exists>r. search_loop lt x k = Some r \<and>
      (if \<exists>y \<in> set (inorder x). matches lt k y
       then \<exists>n i. r = (Some n, i) \<and> i < size_of n \<and> matches lt k (key n ! i) \<and>
                  key n ! i \<in> set (inorder x)
       else r = (None, 0))"
proof (induction h arbitrary: x)
  case 0
  obtain ks cs lf where x: "x = BNode ks cs lf" by (cases x)
  from 0(1) have lf: "lf" "cs = []" by (auto simp: x bt_leaf)
  have io: "inorder x = ks" using lf by (simp add: x)
  define i where "i = findIndex lt x k"
  have ik: "i = findIndex_keys lt ks k" by (simp add: i_def findIndex_def x)
  show ?case
  proof (cases "i < size_of x \<and> \<not> (lt k (key x ! i) \<or> lt (key x ! i) k)")
    case True
    then have "search_loop lt x k = Some (Some x, i)"
      by (subst search_loop.simps) (simp add: Let_def i_def)
    moreover have "matches lt k (key x ! i)" using True by (auto simp: matches_def)
    moreover have "key x ! i \<in> set (inorder x)" using True unfolding io by (simp add: x)
    ultimately show ?thesis using True by auto
  next
    case False
    then have "search_loop lt x k = Some (None, 0)"
      using lf by (subst search_loop.simps) (auto simp add: Let_def i_def x)
    moreover have "sorted_wrt lt ks" using 0(2) unfolding io .
    then have "\<forall>y \<in> set ks. \<not> matches lt k y"
    proof (rule leaf_no_match[OF so])
      show "\<not> (findIndex_keys lt ks k < length ks \<and>
                \<not> (lt (ks ! findIndex_keys lt ks k) k \<or> lt k (ks ! findIndex_keys lt ks k)))"
        using False unfolding ik by (auto simp add: x)
    qed
    ultimately show ?thesis unfolding io by auto
  qed
next
  case (Suc h)
  have nl: "\<not> leaf x" using Suc(2) by simp
  define i where "i = findIndex lt x k"
  have ile: "i \<le> size_of x" unfolding i_def findIndex_def size_of_def by (rule findIndex_keys_le)
  have kin: "set (key x) \<subseteq> set (inorder x)" using Suc(2) by (rule set_keys_inorder)
  show ?case
  proof (cases "i < size_of x \<and> \<not> (lt k (key x ! i) \<or> lt (key x ! i) k)")
    case True
    then have "search_loop lt x k = Some (Some x, i)"
      by (subst search_loop.simps) (simp add: Let_def i_def)
    moreover have "matches lt k (key x ! i)" using True by (auto simp: matches_def)
    moreover have "key x ! i \<in> set (inorder x)" using True kin by (auto simp: size_of_def)
    ultimately show ?thesis using True by auto
  next
    case False
    from bt_zip[OF Suc(2) ile] obtain kl kr cl c cr where
      x: "x = BNode (kl @ kr) (cl @ c # cr) False"
      and l: "length kl = i" "length cl = i" "length cr = length kr"
      and c: "c = child x ! i"
      by metis
    have kids: "\<forall>c' \<in> set (cl @ c # cr). t - 1 \<le> size_of c' \<and> bt t h c'"
      using Suc(2) unfolding x bt_BNode by auto
    have bc: "bt t h c" using kids by auto
    define Lf where "Lf = lefts (map inorder cl) kl"
    define Rt where "Rt = rights kr (map inorder cr)"
    have io: "inorder x = Lf @ inorder c @ Rt"
      unfolding x Lf_def Rt_def using l by (intro inorder_zip) simp_all
    have sc: "sorted_wrt lt (inorder c)" using Suc(3) unfolding io sorted_wrt_append by auto
    have hk: "lt k (hd kr)" if "kr \<noteq> []"
    proof -
      have il: "i < size_of x" using that l by (simp add: x)
      have "\<not> lt (key x ! i) k"
        using findIndex_keys_at[of lt "key x" k] il by (simp add: i_def findIndex_def size_of_def)
      then have "lt k (key x ! i)" using False il by simp
      then show ?thesis using that l by (simp add: x nth_append hd_conv_nth)
    qed
    have l': "length kl = findIndex lt x k" "length cl = length kl" using l i_def by simp_all
    note B = findIndex_bounds[OF so x l' l(3) Suc(3), folded Lf_def Rt_def]
    have nL: "\<forall>u \<in> set Lf. \<not> matches lt k u" using B(1) lt_not_matches[OF so] by blast
    have nR: "\<forall>u \<in> set Rt. \<not> matches lt k u" using B(2) hk gt_not_matches[OF so] by blast
    have me: "(\<exists>y \<in> set (inorder x). matches lt k y) \<longleftrightarrow> (\<exists>y \<in> set (inorder c). matches lt k y)"
      unfolding io using nL nR by auto
    have "search_loop lt x k = search_loop lt c k"
      using False nl by (subst search_loop.simps) (auto simp add: Let_def i_def[symmetric] c)
    moreover from Suc.IH[OF bc sc] obtain r where
      "search_loop lt c k = Some r"
      "if \<exists>y \<in> set (inorder c). matches lt k y
       then \<exists>n i. r = (Some n, i) \<and> i < size_of n \<and> matches lt k (key n ! i) \<and>
                  key n ! i \<in> set (inorder c)
       else r = (None, 0)"
      by blast
    ultimately show ?thesis unfolding me by (auto simp: io split: if_splits)
  qed
qed

subsection \<open>Sequences of insertions and of removals\<close>


lemma btree_inv_new: "btree_inv (BTree_new t lt)"
  unfolding btree_inv_def BTree_new_def by (auto intro: exI[of _ 0] simp: size_of_def)







subsection \<open>search returns\<close>

lemma search_loop_total: "bt t h x \<Longrightarrow> \<exists>r. search_loop lt x k = Some r"
proof (induction h arbitrary: x)
  case 0
  then have "leaf x" by simp
  then show ?case by (subst search_loop.simps) (simp add: Let_def)
next
  case (Suc h)
  define i where "i = findIndex lt x k"
  have "i \<le> size_of x" unfolding i_def findIndex_def size_of_def by (rule findIndex_keys_le)
  then have "child x ! i \<in> set (child x)" using Suc.prems by simp
  then have "bt t h (child x ! i)" using Suc.prems by simp
  from Suc.IH[OF this] obtain r where "search_loop lt (child x ! i) k = Some r" by blast
  then show ?case by (subst search_loop.simps) (simp add: Let_def i_def)
qed

subsection \<open>fixChildSize by index\<close>

lemma bt_height: "bt t h x \<Longrightarrow> height x = Suc h"
proof (induction h arbitrary: x)
  case 0
  then show ?case by (cases x) (simp add: bt_leaf)
next
  case (Suc h)
  obtain ks cs lf where x: "x = BNode ks cs lf" by (cases x)
  from Suc.prems obtain c cs' where cs: "cs = c # cs'" and lf: "\<not> lf" and bc: "bt t h c"
    unfolding x bt_BNode by (cases cs) auto
  from Suc.IH[OF bc] show ?case by (simp add: x cs lf)
qed

lemma nodeInsert_index_end:
  "\<forall>y \<in> set ks. \<not> lt k y \<Longrightarrow> nodeInsert_index lt ks k (length ks) = length ks"
  by (cases ks rule: rev_cases) simp_all

lemma nodeInsert_index_front:
  "n \<le> length ks \<Longrightarrow> \<forall>y \<in> set ks. lt k y \<Longrightarrow> nodeInsert_index lt ks k n = 0"
  by (induction n) simp_all

lemma fix_rotate_left:
  assumes b: "bt t (Suc h) parent" and t: "1 \<le> t" and i: "index \<le> size_of parent"
    and small: "size_of (child parent ! index) < t"
    and c: "index \<noteq> 0" "t \<le> size_of (child parent ! (index - 1))"
  shows "fixChildSize t lt parent index =
     (MODIFIED_NOT_ROOT,
      BNode ((key parent)[index - 1 := last (key (child parent ! (index - 1)))])
        ((child parent)
           [index - 1 := BNode (butlast (key (child parent ! (index - 1))))
                           (butlast (child (child parent ! (index - 1))))
                           (leaf (child parent ! (index - 1))),
            index := BNode
               (take (nodeInsert_index lt (key (child parent ! index)) (key parent ! (index - 1))
                        (size_of (child parent ! index)))
                  (key (child parent ! index))
                @ key parent ! (index - 1)
                # drop (nodeInsert_index lt (key (child parent ! index)) (key parent ! (index - 1))
                          (size_of (child parent ! index)))
                    (key (child parent ! index)))
               (if leaf (child parent ! index) then []
                else last (child (child parent ! (index - 1))) # child (child parent ! index))
               (leaf (child parent ! index))])
        False)"
proof -
  have i1: "index - 1 < size_of parent" using i c(1) by simp
  from bt_zip_key[OF b i1] obtain kl s kr cl L K cr where
    x: "parent = BNode (kl @ s # kr) (cl @ L # K # cr) False"
    and l: "length kl = index - 1" "length cl = index - 1" "length cr = length kr"
    by metis
  have len: "length cl = length kl" using l by simp
  have idx: "index = Suc (length kl)" using l c(1) by simp
  have e: "child parent ! (index - 1) = L" "child parent ! index = K" "key parent ! (index - 1) = s"
    unfolding idx using len by (simp_all add: x nth_append)
  have kids: "bt t h L" "bt t h K" using b unfolding x bt_BNode by auto
  have szK: "size_of K < t" using small unfolding e .
  have szL: "t \<le> size_of L" using c(2) unfolding e .
  have k: "(key parent)[index - 1 := v] = kl @ v # kr" for v
    unfolding idx by (simp add: x list_update_append)
  have ch: "(child parent)[index - 1 := u, index := w] = cl @ u # w # cr" for u w
    unfolding idx using len by (simp add: x list_update_append)
  have "fixChildSize t lt parent (Suc (length kl)) =
           (MODIFIED_NOT_ROOT,
            BNode (kl @ last (key L) # kr)
              (cl @ BNode (butlast (key L)) (butlast (child L)) (leaf L)
                  # BNode (take (nodeInsert_index lt (key K) s (size_of K)) (key K) @ s
                            # drop (nodeInsert_index lt (key K) s (size_of K)) (key K))
                          (if leaf K then [] else last (child L) # child K) (leaf K)
                  # cr) False)"
    using len x kids szK szL t by (rule fix_left_zip)
  then show ?thesis unfolding e k ch unfolding idx .
qed

lemma fix_rotate_right:
  assumes b: "bt t (Suc h) parent" and t: "1 \<le> t" and i: "index \<le> size_of parent"
    and small: "size_of (child parent ! index) < t"
    and ord: "\<forall>y \<in> set (key (child parent ! index)). \<not> lt (key parent ! index) y"
    and nc: "\<not> (index \<noteq> 0 \<and> t \<le> size_of (child parent ! (index - 1)))"
    and c: "index \<noteq> size_of parent" "t \<le> size_of (child parent ! Suc index)"
  shows "fixChildSize t lt parent index =
     (MODIFIED_NOT_ROOT,
      BNode ((key parent)[index := hd (key (child parent ! Suc index))])
        ((child parent)
           [index := BNode (key (child parent ! index) @ [key parent ! index])
                       (if leaf (child parent ! index) then []
                        else child (child parent ! index) @ [hd (child (child parent ! Suc index))])
                       (leaf (child parent ! index)),
            Suc index := BNode (tl (key (child parent ! Suc index)))
                           (tl (child (child parent ! Suc index)))
                           (leaf (child parent ! Suc index))])
        False)"
proof -
  have i1: "index < size_of parent" using i c(1) by simp
  from bt_zip_key[OF b i1] obtain kl s kr cl K R cr where
    x: "parent = BNode (kl @ s # kr) (cl @ K # R # cr) False"
    and l: "length kl = index" "length cl = index" "length cr = length kr"
    by metis
  have len: "length cl = length kl" using l by simp
  have idx: "index = length kl" using l by simp
  have e: "child parent ! index = K" "child parent ! Suc index = R" "key parent ! index = s"
    unfolding idx using len by (simp_all add: x nth_append)
  have kids: "bt t h K" "bt t h R" using b unfolding x bt_BNode by auto
  have szK: "size_of K < t" using small unfolding e .
  have szR: "t \<le> size_of R" using c(2) unfolding e .
  have nl: "length kl \<noteq> 0 \<Longrightarrow> size_of (child parent ! (length kl - 1)) < t"
    using nc unfolding idx by simp
  have j: "nodeInsert_index lt (key K) s (size_of K) = size_of K"
    unfolding size_of_def using ord[unfolded e] by (rule nodeInsert_index_end)
  have k: "(key parent)[index := v] = kl @ v # kr" for v
    unfolding idx by (simp add: x list_update_append)
  have ch: "(child parent)[index := u, Suc index := w] = cl @ u # w # cr" for u w
    unfolding idx using len by (simp add: x list_update_append)
  have "fixChildSize t lt parent (length kl) =
           (MODIFIED_NOT_ROOT,
            BNode (kl @ hd (key R) # kr)
              (cl @ BNode (key K @ [s]) (if leaf K then [] else child K @ [hd (child R)]) (leaf K)
                  # BNode (tl (key R)) (tl (child R)) (leaf R)
                  # cr) False)"
    using len x kids szK szR t nl j by (rule fix_right_zip)
  then show ?thesis unfolding e k ch unfolding idx .
qed

lemma fix_merge_left:
  assumes b: "bt t (Suc h) parent" and i: "index \<le> size_of parent"
    and small: "size_of (child parent ! index) < t"
    and nc: "\<not> (index \<noteq> 0 \<and> t \<le> size_of (child parent ! (index - 1)))"
      "\<not> (index \<noteq> size_of parent \<and> t \<le> size_of (child parent ! Suc index))"
    and c: "index \<noteq> 0"
  shows "fixChildSize t lt parent index =
     (if size_of parent = 1
      then (NEW_ROOT,
            BNode (key (child parent ! (index - 1)) @ key parent ! (index - 1)
                     # key (child parent ! index))
              (child (child parent ! (index - 1)) @ child (child parent ! index))
              (leaf (child parent ! (index - 1))))
      else (MODIFIED_NOT_ROOT,
            BNode (take (index - 1) (key parent) @ drop index (key parent))
              (take (index - 1) (child parent)
               @ BNode (key (child parent ! (index - 1)) @ key parent ! (index - 1)
                          # key (child parent ! index))
                   (child (child parent ! (index - 1)) @ child (child parent ! index))
                   (leaf (child parent ! (index - 1)))
               # drop (Suc index) (child parent))
              False))"
proof -
  have i1: "index - 1 < size_of parent" using i c by simp
  from bt_zip_key[OF b i1] obtain kl s kr cl L K cr where
    x: "parent = BNode (kl @ s # kr) (cl @ L # K # cr) False"
    and l: "length kl = index - 1" "length cl = index - 1" "length cr = length kr"
    by metis
  have len: "length cl = length kl" using l by simp
  have idx: "index = Suc (length kl)" using l c by simp
  have e: "child parent ! (index - 1) = L" "child parent ! index = K" "key parent ! (index - 1) = s"
    unfolding idx using len by (simp_all add: x nth_append)
  have szK: "size_of K < t" using small unfolding e .
  have szL: "size_of L < t" using nc(1) c unfolding e by simp
  have nr: "cr \<noteq> [] \<Longrightarrow> size_of (hd cr) < t"
  proof -
    assume ne: "cr \<noteq> []"
    then have "kr \<noteq> []" using l(3) by auto
    then have "index \<noteq> size_of parent" unfolding idx by (simp add: x)
    moreover have "child parent ! Suc index = hd cr"
      unfolding idx using len ne by (cases cr) (simp_all add: x nth_append)
    ultimately show ?thesis using nc(2) by simp
  qed
  have k: "take (index - 1) (key parent) @ drop index (key parent) = kl @ kr"
    unfolding idx by (simp add: x)
  have ch: "take (index - 1) (child parent) @ u # drop (Suc index) (child parent) = cl @ u # cr" for u
    unfolding idx using len by (simp add: x)
  have sz: "(size_of parent = 1) = (kl @ kr = [])" by (simp add: x)
  have "fixChildSize t lt parent (Suc (length kl)) =
           (if kl @ kr = [] then (NEW_ROOT, BNode (key L @ s # key K) (child L @ child K) (leaf L))
            else (MODIFIED_NOT_ROOT,
                  BNode (kl @ kr)
                    (cl @ BNode (key L @ s # key K) (child L @ child K) (leaf L) # cr) False))"
    using len x szK szL nr l(3) by (rule fix_merge_left_zip)
  then show ?thesis unfolding e k ch sz unfolding idx .
qed

lemma fix_merge_right:
  assumes b: "bt t (Suc h) parent" and ne: "1 \<le> size_of parent"
    and small: "size_of (child parent ! 0) < t"
    and nc: "\<not> (0 \<noteq> size_of parent \<and> t \<le> size_of (child parent ! Suc 0))"
  shows "fixChildSize t lt parent 0 =
     (if size_of parent = 1
      then (NEW_ROOT,
            BNode (key (child parent ! 0) @ key parent ! 0 # key (child parent ! Suc 0))
              (child (child parent ! 0) @ child (child parent ! Suc 0))
              (leaf (child parent ! 0)))
      else (MODIFIED_NOT_ROOT,
            BNode (tl (key parent))
              (BNode (key (child parent ! 0) @ key parent ! 0 # key (child parent ! Suc 0))
                 (child (child parent ! 0) @ child (child parent ! Suc 0))
                 (leaf (child parent ! 0))
               # drop 2 (child parent))
              False))"
proof -
  have i1: "0 < size_of parent" using ne by simp
  from bt_zip_key[OF b i1] obtain kl s kr cl K R cr where
    x0: "parent = BNode (kl @ s # kr) (cl @ K # R # cr) False"
    and l: "length kl = 0" "length cl = 0" "length cr = length kr"
    by metis
  have x: "parent = BNode (s # kr) (K # R # cr) False" using x0 l by simp
  have e: "child parent ! 0 = K" "child parent ! Suc 0 = R" "key parent ! 0 = s"
    by (simp_all add: x)
  have szK: "size_of K < t" using small unfolding e .
  have szR: "size_of R < t" using nc ne unfolding e by simp
  have k: "tl (key parent) = kr" by (simp add: x)
  have ch: "drop 2 (child parent) = cr" by (simp add: x)
  have sz: "(size_of parent = 1) = (kr = [])" by (simp add: x)
  have "fixChildSize t lt parent 0 =
           (if kr = [] then (NEW_ROOT, BNode (key K @ s # key R) (child K @ child R) (leaf K))
            else (MODIFIED_NOT_ROOT,
                  BNode kr (BNode (key K @ s # key R) (child K @ child R) (leaf K) # cr) False))"
    using x szK szR by (rule fix_merge_right_zip)
  then show ?thesis unfolding e k ch sz .
qed

subsection \<open>Keys that the tree does not hold\<close>

lemma strict_order_int: "strict_order ((<) :: int \<Rightarrow> int \<Rightarrow> bool)"
  by (auto simp: strict_order_def)

lemma absent_search:
  assumes so: "strict_order (lessThan T)" and inv: "btree_inv T"
    and no: "\<forall>y \<in> set (inorder (root T)). \<not> matches (lessThan T) k y"
  shows "search T k = Some (None, 0)"
proof -
  from inv obtain h where b: "bt (minDegree T) h (root T)"
    and srt: "sorted_wrt (lessThan T) (inorder (root T))"
    unfolding btree_inv_def by blast
  from search_loop_ok[OF so b srt, of k] no show ?thesis
    unfolding search_def by auto
qed

lemma absent_remove:
  assumes so: "strict_order (lessThan T)" and t: "2 \<le> minDegree T" and inv: "btree_inv T"
    and no: "\<forall>y \<in> set (inorder (root T)). \<not> matches (lessThan T) k y"
  shows "\<exists>T'. remove_bt T k = Some (Inl REMOVE_KEY_NOT_FOUND, T') \<and>
           inorder (root T') = inorder (root T) \<and> btree_inv T' \<and>
           lessThan T' = lessThan T \<and> minDegree T' = minDegree T"
proof -
  from remove_bt_ok[OF so t inv, of k] obtain res T' where
    r: "remove_bt T k = Some (res, T')" "btree_inv T'"
      "removed (lessThan T) k (inorder (root T)) res (inorder (root T'))"
      "lessThan T' = lessThan T" "minDegree T' = minDegree T"
    by blast
  from r(3) no have "res = Inl REMOVE_KEY_NOT_FOUND" "inorder (root T') = inorder (root T)"
    unfolding removed_def by auto
  then show ?thesis using r by simp
qed

lemma remove_new: "remove_bt (BTree_new t lt) k = Some (Inl REMOVE_KEY_NOT_FOUND, BTree_new t lt)"
  unfolding remove_bt_def BTree_new_def
  by (subst remove_loop.simps) (simp add: Let_def findIndex_def size_of_def)

section \<open>The claims\<close>

text \<open>
  C1 (after every sequence of calls of \<open>insert\<close> and \<open>remove\<close> every node but the root has
  between \<open>t - 1\<close> and \<open>2t - 1\<close> keys, every node that is not a leaf has one child more than
  keys, and all leaves are at one depth) fails on the code: a sequence of eleven calls
  ends in a write outside the key array of a node, after ten calls that leave one node in
  two child slots. With \<open>t = 2\<close> and the integers in their order, the calls
  insert 4, 4, 1, 1, 1, 1, 1, 0, remove 4, insert 0 leave, on the store, the root \<open>[1, 1, 1]\<close>
  at address 1 with the leaf \<open>[4]\<close> at address 2 in two of its child slots. In the last of
  these calls \<open>splitChild\<close> has split child 0 of the root \<open>[1, 1]\<close>; \<open>nodeInsert\<close> has put
  the middle key 1 behind the two keys of the root, which match it, at index 2, and copied
  child 2 into child 3, and \<open>splitChild\<close> has stored the new node at index 1, over the
  pointer to the leaf at address 3, and not at the index that \<open>nodeInsert\<close> returns. The
  next call, remove 4, goes to the last child of the root; \<open>fixChildSize\<close> finds no sibling
  with \<open>t\<close> keys and merges child 2 and child 3, which are one node: \<open>mergeChildren\<close> gives
  the node a second key, then copies that many keys of the node behind them, and the
  second copy goes to index 3 of a key array of three slots.
\<close>

theorem shared_child_then_fault:
  "h_tree_after 2 (<)
     [Insert 4, Insert 4, Insert 1, Insert 1, Insert 1, Insert 1, Insert 1, Insert 0,
      Remove 4, Insert (0 :: int)] =
     Some (Inr (Some (Shape 1 [Some 1, Some 1, Some 1]
       [Some (Shape 0 [Some 0, Some 0] []), Some (Shape 4 [Some 1] []),
        Some (Shape 2 [Some 4] []), Some (Shape 2 [Some 4] [])]))) \<and>
   h_tree_after 2 (<)
     [Insert 4, Insert 4, Insert 1, Insert 1, Insert 1, Insert 1, Insert 1, Insert 0,
      Remove 4, Insert (0 :: int), Remove 4] = Some (Inl Out_Of_Bounds)"
  by code_simp




text \<open>
  C3 (\<open>search\<close> and \<open>searchKey\<close> find every key that has been inserted and not removed)
  fails on the code. With \<open>t = 2\<close> and the integers in their order, after the calls
  insert 4, 4, 1, 1, 1, 1, 1, 0, remove 4, insert 5, 0, remove 0, 0, 1, 1, insert 2 the key 2
  has been inserted once and not removed, and no other key matches it; but \<open>search 2\<close>
  returns no node and \<open>searchKey 2\<close> throws \<open>SEARCH_KEY_NOT_FOUND\<close>. The second
  insertion of 0 has left one leaf in two child slots of the root (\<open>splitChild\<close> stores
  the new node at \<open>i + 1\<close> and not at the index that \<open>nodeInsert\<close> returns, see C1); the
  last removal has replaced the first key of the root \<open>[1, 1]\<close> by its successor 4, taken
  from that leaf, so that the root holds 4, 1; \<open>insert 2\<close> has looked for its child from the
  right, and gone to the last child, and \<open>search 2\<close> looks from the left, and goes to the
  first. No call of the sequence ends in a fault.
\<close>

theorem inserted_key_not_found:
  "h_tree_after 2 (<)
     [Insert 4, Insert 4, Insert 1, Insert 1, Insert 1, Insert 1, Insert 1, Insert 0,
      Remove 4, Insert 5, Insert 0, Remove 0, Remove 0, Remove 1, Remove 1, Insert (2 :: int)] =
     Some (Inr (Some (Shape 1 [Some 4, Some 1]
       [Some (Shape 0 [Some 1] []), Some (Shape 2 [Some 2, Some 5] []),
        Some (Shape 2 [Some 2, Some 5] [])]))) \<and>
   h_search_after 2 (<)
     [Insert 4, Insert 4, Insert 1, Insert 1, Insert 1, Insert 1, Insert 1, Insert 0,
      Remove 4, Insert 5, Insert 0, Remove 0, Remove 0, Remove 1, Remove 1, Insert (2 :: int)] 2 =
     Some (Inr (None, 0)) \<and>
   h_searchKey_after 2 (<)
     [Insert 4, Insert 4, Insert 1, Insert 1, Insert 1, Insert 1, Insert 1, Insert 0,
      Remove 4, Insert 5, Insert 0, Remove 0, Remove 0, Remove 1, Remove 1, Insert (2 :: int)] 2 =
     Some (Inr (Inl SEARCH_KEY_NOT_FOUND))"
  by code_simp

text \<open>
  C4 (at every point of a sequence of calls the traversal of the tree yields the keys in
  non-decreasing order) fails on the code. With \<open>t = 2\<close> and the integers in their order,
  after the calls
  insert 4, 4, 1, 1, 1, 1, 1, 0, remove 4, insert 0 the traversal of the tree is
  0, 0, 1, 1, 1, 4, 1, 4, which is not in non-decreasing order. In the last call
  \<open>splitChild\<close> splits child 0 of the root \<open>[1, 1]\<close>; \<open>nodeInsert\<close> puts the middle key 1
  behind the two keys of the root that match it, at index 2, and copies child 2 into child
  3, and \<open>splitChild\<close> stores the new node at index 1, where it replaces a child, and not
  at the index that \<open>nodeInsert\<close> returns.
\<close>

theorem traversal_out_of_order:
  "map_option (inorder \<circ> root)
     (run [Insert 4, Insert 4, Insert 1, Insert 1, Insert 1, Insert 1, Insert 1, Insert 0,
           Remove 4, Insert 0] (BTree_new 2 (<))) = Some [0, 0, 1, 1, 1, 4, 1, 4 :: int] \<and>
   \<not> sorted [0, 0, 1, 1, 1, 4, 1, 4 :: int]"
  by code_simp

text \<open>
  C5, as the specification states it, fails: the rotation from the left sibling does not
  always put the key of the parent at the front of the child. With \<open>t = 2\<close> and pairs
  compared by their first components, the calls insert (1,0), (5,0), (5,1), (2,0) give the
  root \<open>[(5,0)]\<close> over the leaves \<open>[(1,0), (2,0)]\<close> and \<open>[(5,1)]\<close>. The call remove (7,0)
  goes to the second leaf, which has \<open>t - 1\<close> keys, while the first has \<open>t\<close>:
  \<open>fixChildSize\<close> moves (2,0) up and (5,0) down, and \<open>nodeInsert\<close> puts (5,0) behind the
  key (5,1), which matches it.
\<close>

theorem rotation_not_at_front:
  "map_option root
     (run [Insert (1, 0), Insert (5, 0), Insert (5, 1), Insert (2, 0)] (BTree_new 2 by_first)) =
     Some (BNode [(5, 0)] [BNode [(1, 0), (2, 0)] [] True, BNode [(5, 1)] [] True] False) \<and>
   fixChildSize 2 by_first
     (BNode [(5, 0)] [BNode [(1, 0), (2, 0)] [] True, BNode [(5, 1)] [] True] False) 1 =
     (MODIFIED_NOT_ROOT,
      BNode [(2, 0)] [BNode [(1, 0)] [] True, BNode [(5, 1), (5, 0)] [] True] False) \<and>
   map_option root
     (run [Insert (1, 0), Insert (5, 0), Insert (5, 1), Insert (2, 0), Remove (7, 0)]
        (BTree_new 2 by_first)) =
     Some (BNode [(2, 0)] [BNode [(1, 0)] [] True, BNode [(5, 1), (5, 0)] [] True] False)"
  by code_simp

text \<open>
  C5, amended. Let \<open>parent\<close> be a node that is not a leaf, with at least one key, whose
  children have the shape of B-trees of one height, and let its child \<open>kid\<close> at \<open>index\<close> have
  fewer than \<open>t\<close> keys, none of them greater than the key \<open>sr\<close> of the parent behind it.
  Then \<open>fixChildSize\<close> does the following.

  \<^item> If there is a left sibling \<open>lk\<close> with at least \<open>t\<close> keys: the last key of \<open>lk\<close> replaces
    the key \<open>sl\<close> of the parent between \<open>lk\<close> and \<open>kid\<close>, the last child of \<open>lk\<close> becomes the
    first child of \<open>kid\<close>, and \<open>sl\<close> goes into \<open>kid\<close> at the index \<open>j\<close> where \<open>nodeInsert\<close>
    puts it: behind every key of \<open>kid\<close> that it is not less than. That is the front if
    \<open>sl\<close> is less than all keys of \<open>kid\<close>, and not the front if the first key of \<open>kid\<close>
    matches \<open>sl\<close>.
  \<^item> If not, and there is a right sibling \<open>rk\<close> with at least \<open>t\<close> keys: the first key of
    \<open>rk\<close> replaces \<open>sr\<close> in the parent, \<open>sr\<close> becomes the last key of \<open>kid\<close> and the first
    child of \<open>rk\<close> the last child of \<open>kid\<close>.
  \<^item> If not, \<open>kid\<close> is merged with its left sibling, or with its right sibling if it has
    no left one: the merged node holds the keys of the left node, the key of the parent
    between the two, and the keys of the right node, and the parent loses that key and
    one child.
  \<^item> If the parent had one key, the code is \<open>NEW_ROOT\<close> and the merged node is the root;
    it is one level lower than the parent was.
\<close>

theorem fixChildSize_rotates_or_merges:
  fixes parent :: "'a BNode"
  assumes b: "bt t (Suc h) parent" and t: "1 \<le> t"
    and i: "index \<le> size_of parent" and ne: "1 \<le> size_of parent"
    and small: "size_of (child parent ! index) < t"
    and ord: "index < size_of parent \<Longrightarrow>
                \<forall>y \<in> set (key (child parent ! index)). \<not> lt (key parent ! index) y"
  defines "kid \<equiv> child parent ! index"
    and "lk \<equiv> child parent ! (index - 1)"
    and "rk \<equiv> child parent ! Suc index"
    and "sl \<equiv> key parent ! (index - 1)"
    and "sr \<equiv> key parent ! index"
  defines "j \<equiv> nodeInsert_index lt (key kid) sl (size_of kid)"
  shows
    "fixChildSize t lt parent index =
       (if index \<noteq> 0 \<and> t \<le> size_of lk then
          (MODIFIED_NOT_ROOT,
           BNode ((key parent)[index - 1 := last (key lk)])
             ((child parent)
                [index - 1 := BNode (butlast (key lk)) (butlast (child lk)) (leaf lk),
                 index := BNode (take j (key kid) @ sl # drop j (key kid))
                            (if leaf kid then [] else last (child lk) # child kid) (leaf kid)])
             False)
        else if index \<noteq> size_of parent \<and> t \<le> size_of rk then
          (MODIFIED_NOT_ROOT,
           BNode ((key parent)[index := hd (key rk)])
             ((child parent)
                [index := BNode (key kid @ [sr])
                            (if leaf kid then [] else child kid @ [hd (child rk)]) (leaf kid),
                 Suc index := BNode (tl (key rk)) (tl (child rk)) (leaf rk)])
             False)
        else if index \<noteq> 0 then
          (if size_of parent = 1
           then (NEW_ROOT, BNode (key lk @ sl # key kid) (child lk @ child kid) (leaf lk))
           else (MODIFIED_NOT_ROOT,
                 BNode (take (index - 1) (key parent) @ drop index (key parent))
                   (take (index - 1) (child parent)
                    @ BNode (key lk @ sl # key kid) (child lk @ child kid) (leaf lk)
                    # drop (Suc index) (child parent))
                   False))
        else
          (if size_of parent = 1
           then (NEW_ROOT, BNode (key kid @ sr # key rk) (child kid @ child rk) (leaf kid))
           else (MODIFIED_NOT_ROOT,
                 BNode (tl (key parent))
                   (BNode (key kid @ sr # key rk) (child kid @ child rk) (leaf kid)
                    # drop 2 (child parent))
                   False))) \<and>
     ((\<forall>y \<in> set (key kid). lt sl y) \<longrightarrow> j = 0) \<and>
     (fst (fixChildSize t lt parent index) = NEW_ROOT \<longrightarrow>
        Suc (height (snd (fixChildSize t lt parent index))) = height parent)"
proof -
  note defs = kid_def lk_def rk_def sl_def sr_def
  have codes: "MODIFIED_NOT_ROOT \<noteq> NEW_ROOT"
    by (simp add: MODIFIED_NOT_ROOT_def NEW_ROOT_def)
  have hp: "height parent = Suc (Suc h)" using b by (rule bt_height)
  have len: "length (child parent) = Suc (size_of parent)" using b by simp
  have kb: "bt t h c \<and> t - 1 \<le> size_of c" if "c \<in> set (child parent)" for c
    using b that by simp
  have bk: "bt t h kid" unfolding kid_def using kb i len by simp
  have front: "(\<forall>y \<in> set (key kid). lt sl y) \<longrightarrow> j = 0"
    unfolding j_def size_of_def by (simp add: nodeInsert_index_front)
  have merged: "Suc (height (BNode (key a @ s # key c) (child a @ child c) (leaf a))) = height parent"
    if "bt t h a" "bt t h c" "size_of a < t" "size_of c < t" for a c s
  proof -
    have "size_of a + size_of c + 1 \<le> 2 * t - 1" using that(3,4) by simp
    from bt_merged[OF that(1,2) this]
    have "bt t h (BNode (key a @ s # key c) (child a @ child c) (leaf a))" .
    from bt_height[OF this] show ?thesis unfolding hp by simp
  qed
  consider (rotl) "index \<noteq> 0 \<and> t \<le> size_of lk"
    | (rotr) "\<not> (index \<noteq> 0 \<and> t \<le> size_of lk)" "index \<noteq> size_of parent \<and> t \<le> size_of rk"
    | (ml) "\<not> (index \<noteq> 0 \<and> t \<le> size_of lk)" "\<not> (index \<noteq> size_of parent \<and> t \<le> size_of rk)"
        "index \<noteq> 0"
    | (mr) "\<not> (index \<noteq> 0 \<and> t \<le> size_of lk)" "\<not> (index \<noteq> size_of parent \<and> t \<le> size_of rk)"
        "index = 0"
    by blast
  then show ?thesis
  proof cases
    case rotl
    then have c: "index \<noteq> 0" "t \<le> size_of (child parent ! (index - 1))"
      unfolding lk_def by simp_all
    have c1: "(index \<noteq> 0 \<and> t \<le> size_of lk) = True" using rotl by simp
    note f = fix_rotate_left[OF b t i small c, of lt, folded defs, folded j_def]
    have "fst (fixChildSize t lt parent index) \<noteq> NEW_ROOT" unfolding f using codes by simp
    then show ?thesis unfolding c1 if_True using f front by simp
  next
    case rotr
    then have c: "index \<noteq> size_of parent" "t \<le> size_of (child parent ! Suc index)"
      unfolding rk_def by simp_all
    have nc: "\<not> (index \<noteq> 0 \<and> t \<le> size_of (child parent ! (index - 1)))"
      using rotr(1) unfolding lk_def .
    have c1: "(index \<noteq> 0 \<and> t \<le> size_of lk) = False"
      "(index \<noteq> size_of parent \<and> t \<le> size_of rk) = True"
      using rotr by simp_all
    have o: "\<forall>y \<in> set (key (child parent ! index)). \<not> lt (key parent ! index) y"
      using ord c(1) i by simp
    note f = fix_rotate_right[where lt = lt and parent = parent and index = index and t = t
        and h = h, OF b t i small o nc c, folded defs]
    have "fst (fixChildSize t lt parent index) \<noteq> NEW_ROOT" unfolding f using codes by simp
    then show ?thesis unfolding c1 simp_thms if_True if_False using f front by simp
  next
    case ml
    have nc: "\<not> (index \<noteq> 0 \<and> t \<le> size_of (child parent ! (index - 1)))"
      "\<not> (index \<noteq> size_of parent \<and> t \<le> size_of (child parent ! Suc index))"
      using ml(1,2) unfolding lk_def rk_def .
    have c1: "(t \<le> size_of lk) = False"
      "(index \<noteq> size_of parent \<and> t \<le> size_of rk) = False" "(index \<noteq> 0) = True"
      using ml by simp_all
    note f = fix_merge_left[OF b i small nc ml(3), of lt, folded defs, folded j_def]
    have "lk \<in> set (child parent)" unfolding lk_def using i len by simp
    then have bl: "bt t h lk" using kb by simp
    have szl: "size_of lk < t" using ml(1,3) by simp
    have szk: "size_of kid < t" using small unfolding kid_def .
    note m = merged[OF bl bk szl szk, of sl]
    have "fst (fixChildSize t lt parent index) = NEW_ROOT \<longrightarrow>
            Suc (height (snd (fixChildSize t lt parent index))) = height parent"
      unfolding f using m codes by simp
    then show ?thesis unfolding c1 simp_thms if_True if_False using f front by simp
  next
    case mr
    have nc: "\<not> (0 \<noteq> size_of parent \<and> t \<le> size_of (child parent ! Suc 0))"
      using mr(2,3) unfolding rk_def by simp
    have c1: "(index \<noteq> size_of parent \<and> t \<le> size_of rk) = False"
      "(index \<noteq> 0) = False"
      using mr by simp_all
    have small0: "size_of (child parent ! 0) < t" using small mr(3) by simp
    have d0: "kid = child parent ! 0" "rk = child parent ! Suc 0" "sr = key parent ! 0"
      unfolding kid_def rk_def sr_def mr(3) by simp_all
    note f = fix_merge_right[OF b ne small0 nc, of lt, folded d0]
    have f': "fixChildSize t lt parent index = fixChildSize t lt parent 0" using mr(3) by simp
    have "rk \<in> set (child parent)" unfolding rk_def mr(3) using ne len by simp
    then have br: "bt t h rk" using kb by simp
    have szr: "size_of rk < t" using mr(2,3) ne by simp
    have szk: "size_of kid < t" using small unfolding kid_def .
    note m = merged[OF bk br szk szr, of sr]
    have "fst (fixChildSize t lt parent index) = NEW_ROOT \<longrightarrow>
            Suc (height (snd (fixChildSize t lt parent index))) = height parent"
      unfolding f' f using m codes by simp
    then show ?thesis unfolding c1 simp_thms if_True if_False using f f' front by simp
  qed
qed

text \<open>The theorem at the node and the child of the counterexample.\<close>

theorem fixChildSize_rotates_or_merges_witness:
  "bt 2 (Suc 0) (BNode [(5, 0)] [BNode [(1, 0), (2, 0)] [] True, BNode [(5, 1)] [] True] False) \<and>
   fixChildSize 2 by_first
     (BNode [(5, 0)] [BNode [(1, 0), (2, 0)] [] True, BNode [(5, 1)] [] True] False) 1 =
     (MODIFIED_NOT_ROOT,
      BNode [(2, 0)] [BNode [(1, 0)] [] True, BNode [(5, 1), (5, 0)] [] True] False) \<and>
   nodeInsert_index by_first [(5, 1)] (5, 0) 1 = 1"
proof -
  let ?P = "BNode [(5, 0)] [BNode [(1, 0), (2, 0)] [] True, BNode [(5, 1)] [] True] False
              :: (int \<times> int) BNode"
  have b: "bt 2 (Suc 0) ?P" by simp
  have t: "(1 :: nat) \<le> 2" by simp
  have i: "1 \<le> size_of ?P" by simp
  have small: "size_of (child ?P ! 1) < 2" by simp
  have ord: "1 < size_of ?P \<Longrightarrow> \<forall>y \<in> set (key (child ?P ! 1)). \<not> by_first (key ?P ! 1) y"
    by simp
  from fixChildSize_rotates_or_merges[where lt = by_first and parent = ?P and index = 1
      and t = 2 and h = 0, OF b t i i small ord] b
  show ?thesis by (simp add: by_first_def)
qed

text \<open>
  C6, as the specification states it, fails: the index does not move when \<open>k\<close> matches the
  key that the split has moved up. With \<open>t = 2\<close> and the integers in their order, the
  calls insert 1, 10, 20, 2, 3 give the root \<open>[10]\<close> over the leaves \<open>[1, 2, 3]\<close> and \<open>[20]\<close>.
  In insert 2 the index of the child is 0, the child is full, its middle key 2 moves up,
  2 is not less than 2, and the index after the split is 0 still.
\<close>

theorem index_stays_at_matching_key:
  "map_option root (run [Insert 1, Insert 10, Insert 20, Insert 2, Insert 3] (BTree_new 2 (<))) =
     Some (BNode [10 :: int] [BNode [1, 2, 3] [] True, BNode [20] [] True] False) \<and>
   insert_index (<) (BNode [10 :: int] [BNode [1, 2, 3] [] True, BNode [20] [] True] False) 2 = 0 \<and>
   size_of (BNode [1, 2, 3 :: int] [] True) = 2 * 2 - 1 \<and>
   \<not> (2 :: int) < [1, 2, 3] ! (2 - 1) \<and>
   insert_step 2 (<) (BNode [10 :: int] [BNode [1, 2, 3] [] True, BNode [20] [] True] False) 2 =
     (BNode [2, 10] [BNode [1] [] True, BNode [3] [] True, BNode [20] [] True] False, 0)"
  by code_simp

text \<open>
  C6, amended: in the descent of \<open>insert\<close> through a node below which no two keys match, a
  full child, at the index \<open>index\<close> where \<open>k\<close> belongs, is split before the descent goes on;
  its key at \<open>t - 1\<close> moves up into the node, to \<open>index\<close>; and the descent goes on at
  \<open>index + 1\<close> exactly when that key is less than \<open>k\<close>. When \<open>k\<close> matches that key, the index
  stays.
\<close>

theorem insert_step_split:
  fixes cur :: "'a BNode"
  assumes so: "strict_order lt" and t: "1 \<le> t" and b: "bt t (Suc h) cur"
    and srt: "sorted_wrt lt (inorder cur)"
    and full: "size_of (child cur ! insert_index lt cur k) = 2 * t - 1"
  defines "index \<equiv> insert_index lt cur k"
  defines "promoted \<equiv> key (child cur ! index) ! (t - 1)"
  shows "insert_step t lt cur k =
           (splitChild t lt cur index, if lt promoted k then Suc index else index) \<and>
         key (splitChild t lt cur index) ! index = promoted"
proof -
  have ile: "index \<le> size_of cur"
    unfolding index_def insert_index_def by (rule nodeInsert_index_le)
  from bt_zip[OF b ile] obtain kl kr cl c cr where
    x: "cur = BNode (kl @ kr) (cl @ c # cr) False"
    and l: "length kl = index" "length cl = index" "length cr = length kr"
    and c: "c = child cur ! index"
    by metis
  obtain ck cc cf where cn: "c = BNode ck cc cf" by (cases c)
  have len: "length cl = length kl" using l by simp
  have m: "promoted = ck ! (t - 1)" unfolding promoted_def c[symmetric] by (simp add: cn)
  have lck: "length ck = 2 * t - 1" using full unfolding index_def[symmetric] c[symmetric]
    by (simp add: cn)
  have "t - 1 < length ck" using t lck by simp
  then have mk: "promoted \<in> set ck" unfolding m by simp
  have bc: "bt t h c" using b unfolding x bt_BNode by simp
  have "set (key c) \<subseteq> set (inorder c)" using bc by (rule set_keys_inorder)
  then have mc: "promoted \<in> set (inorder c)" using mk by (auto simp: cn)
  define L where "L = lefts (map inorder cl) kl"
  define R where "R = rights kr (map inorder cr)"
  have io: "inorder cur = L @ inorder c @ R"
    unfolding x L_def R_def using l by (intro inorder_zip) simp_all
  have Lc: "\<forall>u \<in> set L. \<forall>v \<in> set (inorder c). lt u v"
    and cR: "\<forall>u \<in> set (inorder c). \<forall>v \<in> set R. lt u v"
    using srt unfolding io sorted_wrt_append by auto
  have kL: "set kl \<subseteq> set L" unfolding L_def using len by (intro set_keys_lefts) simp
  have kR: "set kr \<subseteq> set R" unfolding R_def using l(3) by (intro set_keys_rights) simp
  have a1: "\<forall>y \<in> set kr. lt (ck ! (t - 1)) y" using cR mc kR unfolding m by blast
  have a2: "\<not> lt (ck ! (t - 1)) (last kl)" if "kl \<noteq> []"
  proof -
    have "last kl \<in> set L" using kL last_in_set[OF that] by blast
    then have "lt (last kl) promoted" using Lc mc by blast
    then show ?thesis using strict_orderD(3)[OF so] unfolding m by blast
  qed
  have x': "cur = BNode (kl @ kr) (cl @ BNode ck cc cf # cr) False" using x cn by simp
  have sp: "splitChild t lt cur (length kl) =
           BNode (kl @ ck ! (t - 1) # kr)
                 (cl @ BNode (take (t - 1) ck) (take t cc) cf
                      # BNode (take (t - 1) (drop t ck)) (if cf then [] else take t (drop t cc)) cf
                      # cr) False"
    using a1 a2 len x' by (rule splitChild_zip)
  have kp: "key (splitChild t lt cur index) ! index = promoted"
    unfolding l(1)[symmetric] sp m by simp
  have "insert_step t lt cur k =
          (splitChild t lt cur index,
           if lt (key (splitChild t lt cur index) ! index) k then Suc index else index)"
    unfolding insert_step_def Let_def index_def[symmetric] using full[folded index_def] by simp
  then show ?thesis unfolding kp using kp by simp
qed

text \<open>The theorem at the node of the counterexample, for the keys 2 and 3.\<close>

theorem insert_step_split_witness:
  "bt 2 (Suc 0) (BNode [10 :: int] [BNode [1, 2, 3] [] True, BNode [20] [] True] False) \<and>
   insert_step 2 (<) (BNode [10 :: int] [BNode [1, 2, 3] [] True, BNode [20] [] True] False) 2 =
     (BNode [2, 10] [BNode [1] [] True, BNode [3] [] True, BNode [20] [] True] False, 0) \<and>
   insert_step 2 (<) (BNode [10 :: int] [BNode [1, 2, 3] [] True, BNode [20] [] True] False) 3 =
     (BNode [2, 10] [BNode [1] [] True, BNode [3] [] True, BNode [20] [] True] False, 1)"
proof -
  let ?C = "BNode [10 :: int] [BNode [1, 2, 3] [] True, BNode [20] [] True] False"
  have t: "(1 :: nat) \<le> 2" by simp
  have b: "bt 2 (Suc 0) ?C" by simp
  have srt: "sorted_wrt (<) (inorder ?C)" by simp
  have i2: "insert_index (<) ?C 2 = 0" and i3: "insert_index (<) ?C 3 = 0"
    by (simp_all add: insert_index_def)
  have sp: "splitChild 2 (<) ?C 0 =
              BNode [2, 10] [BNode [1] [] True, BNode [3] [] True, BNode [20] [] True] False"
    by code_simp
  have f2: "size_of (child ?C ! insert_index (<) ?C 2) = 2 * 2 - 1" unfolding i2 by simp
  have f3: "size_of (child ?C ! insert_index (<) ?C 3) = 2 * 2 - 1" unfolding i3 by simp
  from insert_step_split[OF strict_order_int t b srt f2] insert_step_split[OF strict_order_int t b srt f3]
    b show ?thesis unfolding i2 i3 sp by simp
qed

text \<open>
  C7, as the specification states it, fails: with \<open>t = 2\<close> and the integers in their order,
  after the insertion of 1, ..., 7 into the empty tree the root does not hold one key.
\<close>

theorem insert_1_to_7_root_not_one_key:
  "map_option (size_of \<circ> root)
     (run (map Insert [1, 2, 3, 4, 5, 6, 7 :: int]) (BTree_new 2 (<))) \<noteq> Some 1"
  by code_simp

text \<open>
  C7, amended: with \<open>t = 2\<close> and the integers in their order, the insertion of 1, ..., 7 in
  this order into the empty tree gives a tree of two levels whose root holds the two keys 2
  and 4, over the leaves \<open>[1]\<close>, \<open>[3]\<close> and \<open>[5, 6, 7]\<close>. (The root \<open>[1, 2, 3]\<close> is split
  when 4 comes, and the leaf \<open>[3, 4, 5]\<close> when 6 comes; its middle key 4 goes up into the
  root.)
\<close>

theorem insert_1_to_7:
  "map_option root (run (map Insert [1, 2, 3, 4, 5, 6, 7 :: int]) (BTree_new 2 (<))) =
     Some (BNode [2, 4] [BNode [1] [] True, BNode [3] [] True, BNode [5, 6, 7] [] True] False) \<and>
   map_option (height \<circ> root)
     (run (map Insert [1, 2, 3, 4, 5, 6, 7 :: int]) (BTree_new 2 (<))) = Some 2 \<and>
   map_option (size_of \<circ> root)
     (run (map Insert [1, 2, 3, 4, 5, 6, 7 :: int]) (BTree_new 2 (<))) = Some 2"
  by code_simp



text \<open>
  C9: on a tree that has the shape of a B-tree, \<open>search k\<close> returns (it does not loop), and
  \<open>searchKey k\<close> throws \<open>SEARCH_KEY_NOT_FOUND\<close> exactly when \<open>search k\<close> has returned no
  node; otherwise it returns the key that stands at the index in the node that
  \<open>search k\<close> has returned.
\<close>

theorem searchKey_wraps_search:
  assumes "bt (minDegree T) h (root T)"
  shows "\<exists>node i. search T k = Some (node, i) \<and>
           searchKey T k =
             Some (case node of None \<Rightarrow> Inl SEARCH_KEY_NOT_FOUND | Some x \<Rightarrow> Inr (key x ! i)) \<and>
           ((searchKey T k = Some (Inl SEARCH_KEY_NOT_FOUND)) = (node = None))"
proof -
  from search_loop_total[OF assms] obtain r where "search T k = Some r"
    unfolding search_def by blast
  then show ?thesis by (cases r) (auto simp: searchKey_def split: option.splits)
qed

text \<open>
  The theorem at the tree that the insertion of 1, ..., 7 gives, for the key 6, which it
  holds, and the key 8, which it does not.
\<close>

theorem searchKey_wraps_search_witness:
  "bt 2 1 (BNode [2, 4 :: int] [BNode [1] [] True, BNode [3] [] True, BNode [5, 6, 7] [] True] False) \<and>
   search \<lparr>root = BNode [2, 4 :: int] [BNode [1] [] True, BNode [3] [] True, BNode [5, 6, 7] [] True] False,
           lessThan = (<), minDegree = 2\<rparr> 6 = Some (Some (BNode [5, 6, 7] [] True), 1) \<and>
   searchKey \<lparr>root = BNode [2, 4 :: int] [BNode [1] [] True, BNode [3] [] True, BNode [5, 6, 7] [] True] False,
           lessThan = (<), minDegree = 2\<rparr> 6 = Some (Inr 6) \<and>
   searchKey \<lparr>root = BNode [2, 4 :: int] [BNode [1] [] True, BNode [3] [] True, BNode [5, 6, 7] [] True] False,
           lessThan = (<), minDegree = 2\<rparr> 8 = Some (Inl SEARCH_KEY_NOT_FOUND)"
proof -
  let ?T = "\<lparr>root = BNode [2, 4 :: int] [BNode [1] [] True, BNode [3] [] True, BNode [5, 6, 7] [] True] False,
           lessThan = (<), minDegree = 2\<rparr>"
  have b: "bt (minDegree ?T) 1 (root ?T)" by (simp add: size_of_def)
  have s6: "search ?T 6 = Some (Some (BNode [5, 6, 7] [] True), 1)" by code_simp
  have s8: "search ?T 8 = Some (None, 0)" by code_simp
  from searchKey_wraps_search[OF b, of 6] s6
  have k6: "searchKey ?T 6 = Some (Inr 6)" by auto
  from searchKey_wraps_search[OF b, of 8] s8
  have k8: "searchKey ?T 8 = Some (Inl SEARCH_KEY_NOT_FOUND)" by auto
  from b s6 k6 k8 show ?thesis by simp
qed

text \<open>
  C10: for a key that no key of the tree matches, \<open>searchKey\<close> throws
  \<open>SEARCH_KEY_NOT_FOUND\<close>, the character s, and \<open>remove\<close> throws \<open>REMOVE_KEY_NOT_FOUND\<close>,
  the character r: the two exceptions differ, and who catches one knows which of the two
  calls has thrown it.
\<close>

theorem key_absent_exceptions_differ:
  assumes "strict_order (lessThan T)" and "2 \<le> minDegree T" and "btree_inv T"
    and "\<forall>y \<in> set (inorder (root T)). \<not> matches (lessThan T) k y"
  shows "searchKey T k = Some (Inl SEARCH_KEY_NOT_FOUND) \<and>
         (\<exists>T'. remove_bt T k = Some (Inl REMOVE_KEY_NOT_FOUND, T')) \<and>
         SEARCH_KEY_NOT_FOUND = CHR ''s'' \<and> REMOVE_KEY_NOT_FOUND = CHR ''r'' \<and>
         SEARCH_KEY_NOT_FOUND \<noteq> REMOVE_KEY_NOT_FOUND"
proof -
  have "searchKey T k = Some (Inl SEARCH_KEY_NOT_FOUND)"
    unfolding searchKey_def absent_search[OF assms(1,3,4)] by simp
  moreover from absent_remove[OF assms]
  have "\<exists>T'. remove_bt T k = Some (Inl REMOVE_KEY_NOT_FOUND, T')" by blast
  ultimately show ?thesis by (simp add: SEARCH_KEY_NOT_FOUND_def REMOVE_KEY_NOT_FOUND_def)
qed

text \<open>The theorem at the empty tree and the key 0.\<close>

theorem key_absent_exceptions_differ_witness:
  "searchKey (BTree_new 2 (<)) (0 :: int) = Some (Inl CHR ''s'') \<and>
   remove_bt (BTree_new 2 (<)) (0 :: int) = Some (Inl CHR ''r'', BTree_new 2 (<))"
proof -
  let ?T = "BTree_new 2 ((<) :: int \<Rightarrow> int \<Rightarrow> bool)"
  have so: "strict_order (lessThan ?T)" by (simp add: BTree_new_def strict_order_int)
  have t: "2 \<le> minDegree ?T" by (simp add: BTree_new_def)
  have no: "\<forall>y \<in> set (inorder (root ?T)). \<not> matches (lessThan ?T) 0 y"
    by (simp add: BTree_new_def)
  from key_absent_exceptions_differ[OF so t btree_inv_new no]
  show ?thesis by (simp add: remove_new)
qed

end
